theory Spec2Isabelle
  imports Complex_Main "HOL-Library.AList" "HOL-Library.Code_Target_Nat"
begin

section \<open>Python values used by the analyzer\<close>

text \<open>
  A Python \<open>dict\<close> keeps its keys in insertion order, so it is an association list with
  distinct keys: \<open>map_of\<close> reads it, \<open>AList.update\<close> writes it (an existing key keeps its
  place, a new key goes to the end) and \<open>AList.delete\<close> is \<open>del d[k]\<close>.
\<close>

type_synonym ('k, 'v) dict = "('k \<times> 'v) list"

definition dict_get :: "('k, 'v) dict \<Rightarrow> 'k \<Rightarrow> 'v \<Rightarrow> 'v" where
  \<comment> \<open>\<open>d.get(k, default)\<close>\<close>
  "dict_get d k dflt = (case map_of d k of None \<Rightarrow> dflt | Some v \<Rightarrow> v)"

datatype error = ValueError | IndexError

text \<open>
  The stop predicate \<open>should_stop\<close> is a callable of the caller; a run sees one answer per
  poll, so it is a function of the number of polls made so far.
\<close>

definition never_stop :: "nat \<Rightarrow> bool" where
  "never_stop n = False"

definition always_stop :: "nat \<Rightarrow> bool" where
  "always_stop n = True"

fun str_split :: "char \<Rightarrow> string \<Rightarrow> string list" where
  \<comment> \<open>\<open>s.split(c)\<close> for a one-character separator: always at least one part\<close>
  "str_split c [] = [[]]"
| "str_split c (x # xs) =
     (if x = c then [] # str_split c xs
      else (case str_split c xs of [] \<Rightarrow> [[x]] | w # ws \<Rightarrow> (x # w) # ws))"

fun str_split1 :: "char \<Rightarrow> string \<Rightarrow> string list" where
  \<comment> \<open>\<open>s.split(c, 1)\<close>: splits at the first separator only\<close>
  "str_split1 c [] = [[]]"
| "str_split1 c (x # xs) =
     (if x = c then [[], xs]
      else (case str_split1 c xs of [] \<Rightarrow> [[x]] | w # ws \<Rightarrow> (x # w) # ws))"

lemma str_split_nonempty: "str_split c s \<noteq> []"
  by (induction s) (auto split: list.splits)

section \<open>Class index and call graph\<close>

record MethodInfo =
  requires_params :: bool
  has_mapping_annotation :: bool

record ClassRecord =
  file_path :: string
  methods :: "string \<rightharpoonup> MethodInfo"

type_synonym class_methods = "string \<rightharpoonup> ClassRecord"

type_synonym call_graph = "(string, string list) dict"

definition is_has_parameters :: "class_methods \<Rightarrow> string \<Rightarrow> string \<Rightarrow> bool" where
  "is_has_parameters cm class_name method_name =
     (case cm class_name of
        None \<Rightarrow> True
      | Some info \<Rightarrow>
          (case methods info method_name of
             None \<Rightarrow> True
           | Some mi \<Rightarrow> requires_params mi))"

definition is_entry_point :: "class_methods \<Rightarrow> string \<Rightarrow> error + bool" where
  \<comment> \<open>\<open>class_name, method_name = method.split(':')\<close> raises unless there are exactly two parts\<close>
  "is_entry_point cm method =
     (case str_split (CHR '':'') method of
        [class_name, method_name] \<Rightarrow>
          Inr (case cm class_name of
                 None \<Rightarrow> False
               | Some info \<Rightarrow>
                   (case methods info method_name of
                      None \<Rightarrow> False
                    | Some mi \<Rightarrow> has_mapping_annotation mi))
      | _ \<Rightarrow> Inl ValueError)"

subsection \<open>The reverse call graph\<close>

definition rcg_append :: "string \<Rightarrow> string \<Rightarrow> call_graph \<Rightarrow> call_graph" where
  \<comment> \<open>the body of the inner loop: create the entry if missing, then append the caller\<close>
  "rcg_append caller callee rcg =
     (let rcg1 = (if map_of rcg callee = None then AList.update callee [] rcg else rcg)
      in AList.update callee (dict_get rcg1 callee [] @ [caller]) rcg1)"

definition build_reverse_call_graph :: "call_graph \<Rightarrow> call_graph" where
  \<comment> \<open>\<open>_build_reverse_call_graph\<close>: the old reverse graph is cleared first, so the result
      depends on the forward graph only. \<open>list(set(xs))\<close> keeps one copy of each element in
      an order Python does not fix; \<open>remdups\<close> is one such order.\<close>
  "build_reverse_call_graph cg =
     (let rcg = fold (\<lambda>(caller, callees) r. fold (rcg_append caller) callees r) cg []
      in map (\<lambda>(callee, callers). (callee, remdups callers)) rcg)"

subsection \<open>Backtracking from a sink\<close>

definition effective_max_depth :: "int \<Rightarrow> int" where
  "effective_max_depth max_depth = (if max_depth < 10 then max max_depth 15 else max_depth)"

type_synonym trace_entry = "string list \<times> int \<times> string set"
type_synonym trace_state = "string list list \<times> (string \<times> int) set \<times> trace_entry list"

fun visit_callers ::
  "class_methods \<Rightarrow> string list \<Rightarrow> int \<Rightarrow> string set \<Rightarrow> string list \<Rightarrow> trace_state
     \<Rightarrow> error + trace_state" where
  "visit_callers cm current_path current_depth path_nodes [] st = Inr st"
| "visit_callers cm current_path current_depth path_nodes (caller # rest) (paths, visited_states, queue) =
     (if caller \<in> path_nodes then
        visit_callers cm current_path current_depth path_nodes rest (paths, visited_states, queue)
      else if (caller, current_depth + 1) \<in> visited_states then
        visit_callers cm current_path current_depth path_nodes rest (paths, visited_states, queue)
      else
        (let visited' = insert (caller, current_depth + 1) visited_states in
         case str_split1 (CHR '':'') caller of
           [cls, mtd] \<Rightarrow>
             if \<not> is_has_parameters cm cls mtd then
               visit_callers cm current_path current_depth path_nodes rest (paths, visited', queue)
             else
               (case is_entry_point cm caller of
                  Inl e \<Rightarrow> Inl e
                | Inr True \<Rightarrow>
                    visit_callers cm current_path current_depth path_nodes rest
                      (paths @ [caller # current_path], visited', queue)
                | Inr False \<Rightarrow>
                    visit_callers cm current_path current_depth path_nodes rest
                      (paths, visited',
                       queue @ [(caller # current_path, current_depth + 1, insert caller path_nodes)]))
         | _ \<Rightarrow> Inl ValueError))"

definition entry_weight :: "nat \<Rightarrow> int \<Rightarrow> trace_entry \<Rightarrow> nat" where
  "entry_weight b eff e = (Suc b) ^ nat (eff - fst (snd e))"

definition fan_in :: "call_graph \<Rightarrow> nat" where
  "fan_in rcg = sum_list (map (\<lambda>(k, cs). length cs) rcg)"

lemma visit_callers_queue:
  "visit_callers cm p d nodes callers (paths, vis, queue) = Inr (paths', vis', queue') \<Longrightarrow>
   \<exists>new. queue' = queue @ new \<and> length new \<le> length callers \<and>
     (\<forall>e \<in> set new. fst (snd e) = d + 1)"
proof (induction callers arbitrary: paths vis queue)
  case Nil
  then show ?case by simp
next
  case (Cons c cs)
  show ?case using Cons.prems
    by (auto simp: Let_def split: if_splits list.splits sum.splits bool.splits
        dest!: Cons.IH)
qed

lemma dict_get_length_fan_in: "length (dict_get rcg k []) \<le> fan_in rcg"
proof (cases "map_of rcg k")
  case None
  then show ?thesis by (simp add: dict_get_def)
next
  case (Some cs)
  then have "(k, cs) \<in> set rcg" by (rule map_of_SomeD)
  then have "length cs \<le> fan_in rcg"
    unfolding fan_in_def by (induction rcg) auto
  with Some show ?thesis by (simp add: dict_get_def)
qed

lemma sum_list_entry_weight_new:
  "\<forall>e \<in> set new. fst (snd e) = d + 1 \<Longrightarrow>
   sum_list (map (entry_weight b eff) new) = length new * Suc b ^ nat (eff - (d + 1))"
  by (induction new) (auto simp: entry_weight_def)

lemma new_entries_lighter:
  assumes "d < eff" and "length new \<le> b" and "\<forall>e \<in> set new. fst (snd e) = d + 1"
  shows "sum_list (map (entry_weight b eff) new) < entry_weight b eff (p, d, nodes)"
proof -
  have k: "nat (eff - d) = Suc (nat (eff - (d + 1)))"
    using assms(1) by simp
  have "length new * Suc b ^ nat (eff - (d + 1)) \<le> b * Suc b ^ nat (eff - (d + 1))"
    using assms(2) by simp
  also have "\<dots> < Suc b * Suc b ^ nat (eff - (d + 1))"
    by simp
  finally show ?thesis
    using sum_list_entry_weight_new [OF assms(3)] k by (simp add: entry_weight_def)
qed

lemma entry_weight_pos: "0 < entry_weight b eff e"
  by (simp add: entry_weight_def)

function trace_loop ::
  "class_methods \<Rightarrow> call_graph \<Rightarrow> (nat \<Rightarrow> bool) \<Rightarrow> int \<Rightarrow> nat \<Rightarrow> string list list
     \<Rightarrow> (string \<times> int) set \<Rightarrow> trace_entry list \<Rightarrow> error + string list list" where
  "trace_loop cm rcg should_stop eff n paths visited_states [] = Inr paths"
| "trace_loop cm rcg should_stop eff n paths visited_states
     ((current_path, current_depth, path_nodes) # queue) =
     (if should_stop n then Inr paths
      else if current_depth \<ge> eff then
        trace_loop cm rcg should_stop eff (Suc n) paths visited_states queue
      else
        (case current_path of
           [] \<Rightarrow> Inl IndexError
         | current_sink # _ \<Rightarrow>
             (let caller_methods = dict_get rcg current_sink [] in
              if caller_methods = [] then
                trace_loop cm rcg should_stop eff (Suc n) paths visited_states queue
              else
                (case visit_callers cm current_path current_depth path_nodes caller_methods
                        (paths, visited_states, queue) of
                   Inl e \<Rightarrow> Inl e
                 | Inr (paths', visited', queue') \<Rightarrow>
                     trace_loop cm rcg should_stop eff (Suc n) paths' visited' queue'))))"
  by pat_completeness auto
termination
proof (relation "measure (\<lambda>(cm, rcg, should_stop, eff, n, paths, visited_states, queue).
          sum_list (map (entry_weight (fan_in rcg) eff) queue))", goal_cases)
  case 1
  show ?case by simp
next
  case 2
  show ?case by (simp add: entry_weight_pos)
next
  case 3
  show ?case by (simp add: entry_weight_pos)
next
  case (4 cm rcg should_stop eff n paths visited_states current_path current_depth path_nodes
      queue current_sink rest caller_methods res paths' rest' visited' queue')
  from 4 have vc: "visit_callers cm current_path current_depth path_nodes
      (dict_get rcg current_sink []) (paths, visited_states, queue) = Inr (paths', visited', queue')"
    by simp
  from visit_callers_queue [OF vc] obtain new where
    new: "queue' = queue @ new" "length new \<le> length (dict_get rcg current_sink [])"
      "\<forall>e \<in> set new. fst (snd e) = current_depth + 1"
    by blast
  have "length new \<le> fan_in rcg"
    using new(2) dict_get_length_fan_in [of rcg current_sink] by simp
  moreover have "current_depth < eff" using 4 by simp
  ultimately have "sum_list (map (entry_weight (fan_in rcg) eff) new)
      < entry_weight (fan_in rcg) eff (current_path, current_depth, path_nodes)"
    using new(3) by (intro new_entries_lighter) auto
  then show ?case using new(1) by simp
qed

definition trace_back ::
  "class_methods \<Rightarrow> call_graph \<Rightarrow> (nat \<Rightarrow> bool) \<Rightarrow> string \<Rightarrow> int \<Rightarrow> error + string list list" where
  \<comment> \<open>\<open>_trace_back\<close>. The start time in each queue entry and \<open>max_seconds\<close> are only
      used by the time-out that the source has commented out; they are left out. An
      exception leaves the function (\<open>Inl\<close>); the caller then records no chain.\<close>
  "trace_back cm rcg should_stop sink max_depth =
     trace_loop cm rcg should_stop (effective_max_depth max_depth) 0 [] {}
       [([sink], 0, {sink})]"

definition good_chain :: "class_methods \<Rightarrow> string \<Rightarrow> int \<Rightarrow> string list \<Rightarrow> bool" where
  "good_chain cm sink eff c \<longleftrightarrow>
     c \<noteq> [] \<and> distinct c \<and> is_entry_point cm (hd c) = Inr True \<and> last c = sink \<and>
     int (length c) \<le> eff + 1"

definition entry_ok :: "string \<Rightarrow> trace_entry \<Rightarrow> bool" where
  "entry_ok sink e \<longleftrightarrow>
     (case e of (p, d, nodes) \<Rightarrow>
        p \<noteq> [] \<and> distinct p \<and> set p = nodes \<and> last p = sink \<and> int (length p) = d + 1)"

lemma visit_callers_invariant:
  assumes "visit_callers cm p d nodes callers (paths, vis, queue) = Inr (paths', vis', queue')"
    and "entry_ok sink (p, d, nodes)" and "d < eff"
    and "list_all (good_chain cm sink eff) paths" and "list_all (entry_ok sink) queue"
  shows "list_all (good_chain cm sink eff) paths' \<and> list_all (entry_ok sink) queue'"
  using assms
proof (induction callers arbitrary: paths vis queue)
  case Nil
  then show ?case by simp
next
  case (Cons c cs)
  have ext: "c \<notin> nodes \<Longrightarrow> entry_ok sink (c # p, d + 1, insert c nodes)"
    using Cons.prems(2) by (auto simp: entry_ok_def)
  have emit: "c \<notin> nodes \<Longrightarrow> is_entry_point cm c = Inr True \<Longrightarrow> good_chain cm sink eff (c # p)"
    using Cons.prems(2,3) by (auto simp: entry_ok_def good_chain_def)
  show ?case
    using Cons.prems(1) Cons.prems(2-5) ext emit
    by (auto simp: Let_def split: if_splits list.splits sum.splits bool.splits
        dest!: Cons.IH)
qed

lemma trace_loop_invariant:
  "trace_loop cm rcg should_stop eff n paths vis queue = Inr res \<Longrightarrow>
   list_all (good_chain cm sink eff) paths \<Longrightarrow> list_all (entry_ok sink) queue \<Longrightarrow>
   list_all (good_chain cm sink eff) res"
proof (induction cm rcg should_stop eff n paths vis queue rule: trace_loop.induct)
  case (1 cm rcg should_stop eff n paths visited_states)
  then show ?case by simp
next
  case (2 cm rcg should_stop eff n paths visited_states current_path current_depth path_nodes queue)
  show ?case
  proof (cases "should_stop n")
    case True
    with "2.prems" show ?thesis by simp
  next
    case ns: False
    show ?thesis
    proof (cases "current_depth \<ge> eff")
      case True
      with ns "2.prems" "2.IH"(1) show ?thesis by simp
    next
      case deep: False
      from "2.prems"(3) have ok: "entry_ok sink (current_path, current_depth, path_nodes)"
        and qok: "list_all (entry_ok sink) queue" by simp_all
      from ok obtain current_sink rest where cp: "current_path = current_sink # rest"
        by (cases current_path) (auto simp: entry_ok_def)
      show ?thesis
      proof (cases "dict_get rcg current_sink [] = []")
        case True
        with ns deep cp "2.prems" qok "2.IH"(2) show ?thesis by simp
      next
        case callers: False
        from "2.prems"(1) ns deep cp callers obtain paths' visited' queue' where
          vc: "visit_callers cm current_path current_depth path_nodes
                 (dict_get rcg current_sink []) (paths, visited_states, queue)
               = Inr (paths', visited', queue')"
          and rec: "trace_loop cm rcg should_stop eff (Suc n) paths' visited' queue' = Inr res"
          by (auto simp: Let_def split: sum.splits)
        from visit_callers_invariant [OF vc ok _ "2.prems"(2) qok] deep
        have "list_all (good_chain cm sink eff) paths'" "list_all (entry_ok sink) queue'"
          by simp_all
        with "2.IH"(3) [OF ns deep cp refl callers _ _ _ rec] vc show ?thesis
          by simp
      qed
    qed
  qed
qed

lemma effective_max_depth_le: "effective_max_depth d \<le> max d 15"
  by (simp add: effective_max_depth_def)

definition ex_class_methods :: class_methods where
  "ex_class_methods =
     [''A'' \<mapsto> \<lparr>file_path = ''A.java'',
                 methods = [''h'' \<mapsto> \<lparr>requires_params = True, has_mapping_annotation = True\<rparr>]\<rparr>,
      ''Svc'' \<mapsto> \<lparr>file_path = ''Svc.java'',
                 methods = [''q'' \<mapsto> \<lparr>requires_params = True, has_mapping_annotation = False\<rparr>]\<rparr>]"

definition ex_call_graph :: call_graph where
  "ex_call_graph = [(''A:h'', [''Svc:q'']), (''Svc:q'', [''Statement:executeQuery''])]"

text \<open>
  C1. Every chain returned by \<open>_trace_back\<close> for a sink and a depth cap has no repeated
  signature, starts at a signature for which \<open>is_entry_point\<close> is true, ends at the sink
  the search was started from, and has at most \<open>max(depth, 15) + 1\<close> elements. The stop
  predicate is any sequence of answers, one per poll.
\<close>

theorem trace_back_chains:
  assumes "trace_back cm rcg should_stop sink depth = Inr paths" and "chain \<in> set paths"
  shows "chain \<noteq> [] \<and> distinct chain \<and> is_entry_point cm (hd chain) = Inr True \<and>
         last chain = sink \<and> int (length chain) \<le> max depth 15 + 1"
proof -
  have "list_all (good_chain cm sink (effective_max_depth depth)) paths"
    using assms(1) unfolding trace_back_def
    by (rule trace_loop_invariant) (simp_all add: entry_ok_def)
  with assms(2) have "good_chain cm sink (effective_max_depth depth) chain"
    by (simp add: list_all_iff)
  then show ?thesis
    using effective_max_depth_le [of depth] by (simp add: good_chain_def)
qed

theorem trace_back_chains_witness:
  "trace_back ex_class_methods (build_reverse_call_graph ex_call_graph) never_stop
     ''Statement:executeQuery'' 15 = Inr [[''A:h'', ''Svc:q'', ''Statement:executeQuery'']] \<and>
   distinct [''A:h'', ''Svc:q'', ''Statement:executeQuery''] \<and>
   is_entry_point ex_class_methods ''A:h'' = Inr True"
proof -
  have run: "trace_back ex_class_methods (build_reverse_call_graph ex_call_graph) never_stop
     ''Statement:executeQuery'' 15 = Inr [[''A:h'', ''Svc:q'', ''Statement:executeQuery'']]"
    by code_simp
  from trace_back_chains [OF run, of "[''A:h'', ''Svc:q'', ''Statement:executeQuery'']"] run
  show ?thesis by simp
qed

subsection \<open>The reverse graph is the transpose of the forward graph\<close>

lemma dict_get_update:
  "dict_get (AList.update k v d) k' dflt = (if k' = k then v else dict_get d k' dflt)"
  by (simp add: dict_get_def update_conv')

lemma rcg_append_get:
  "dict_get (rcg_append caller callee rcg) e [] =
     (if e = callee then dict_get rcg callee [] @ [caller] else dict_get rcg e [])"
  by (auto simp: rcg_append_def Let_def dict_get_update) (simp add: dict_get_def)

lemma rcg_append_keys:
  "distinct (map fst rcg) \<Longrightarrow> distinct (map fst (rcg_append caller callee rcg))"
  by (simp add: rcg_append_def Let_def distinct_update)

lemma fold_rcg_append_get:
  "set (dict_get (fold (rcg_append caller) callees rcg) e []) =
     set (dict_get rcg e []) \<union> (if e \<in> set callees then {caller} else {})"
  by (induction callees arbitrary: rcg) (auto simp: rcg_append_get)

lemma fold_rcg_append_keys:
  "distinct (map fst rcg) \<Longrightarrow> distinct (map fst (fold (rcg_append caller) callees rcg))"
  by (induction callees arbitrary: rcg) (auto simp: rcg_append_keys)

lemma fold_callers_get:
  "set (dict_get (fold (\<lambda>(caller, callees) r. fold (rcg_append caller) callees r) cg rcg) e []) =
     set (dict_get rcg e []) \<union> {c. \<exists>es. (c, es) \<in> set cg \<and> e \<in> set es}"
  by (induction cg arbitrary: rcg) (auto simp: fold_rcg_append_get split: if_splits)

lemma fold_callers_keys:
  "distinct (map fst rcg) \<Longrightarrow>
   distinct (map fst (fold (\<lambda>(caller, callees) r. fold (rcg_append caller) callees r) cg rcg))"
  by (induction cg arbitrary: rcg) (auto simp: fold_rcg_append_keys)

lemma dict_get_map_remdups:
  "dict_get (map (\<lambda>(k, v). (k, remdups v)) d) e [] = remdups (dict_get d e [])"
  by (induction d) (auto simp: dict_get_def)

lemma dict_get_mem_distinct:
  "distinct (map fst cg) \<Longrightarrow>
   (\<exists>es. (c, es) \<in> set cg \<and> e \<in> set es) \<longleftrightarrow> e \<in> set (dict_get cg c [])"
  by (auto simp: dict_get_def split: option.splits dest: map_of_SomeD weak_map_of_SomeI
      simp: map_of_eq_None_iff image_iff)

text \<open>
  C3. After \<open>_build_reverse_call_graph\<close> the reverse graph is the transpose of the forward
  graph: \<open>e\<close> is in \<open>call_graph[c]\<close> exactly when \<open>c\<close> is in \<open>reverse_call_graph[e]\<close>
  (a missing key holds nothing), every caller list of the reverse graph is free of
  duplicates, and the reverse graph is again a dictionary. The forward graph is a
  dictionary: its keys are distinct.
\<close>

theorem reverse_call_graph_transpose:
  assumes "distinct (map fst cg)"
  shows "(e \<in> set (dict_get cg c []) \<longleftrightarrow> c \<in> set (dict_get (build_reverse_call_graph cg) e [])) \<and>
         list_all (\<lambda>(callee, callers). distinct callers) (build_reverse_call_graph cg) \<and>
         distinct (map fst (build_reverse_call_graph cg))"
proof (intro conjI)
  show "e \<in> set (dict_get cg c []) \<longleftrightarrow> c \<in> set (dict_get (build_reverse_call_graph cg) e [])"
  proof -
    have "c \<in> set (dict_get (build_reverse_call_graph cg) e []) \<longleftrightarrow>
          (\<exists>es. (c, es) \<in> set cg \<and> e \<in> set es)"
      unfolding build_reverse_call_graph_def Let_def dict_get_map_remdups set_remdups
        fold_callers_get
      by (simp add: dict_get_def)
    then show ?thesis
      using dict_get_mem_distinct [OF assms, of c e] by simp
  qed
  show "list_all (\<lambda>(callee, callers). distinct callers) (build_reverse_call_graph cg)"
    by (auto simp: build_reverse_call_graph_def list_all_iff)
  have keys: "map fst (map (\<lambda>(k, v). (k, remdups v)) d) = map fst d" for d :: call_graph
    by (induction d) auto
  show "distinct (map fst (build_reverse_call_graph cg))"
    unfolding build_reverse_call_graph_def Let_def keys
    using fold_callers_keys [of "[]" cg] by simp
qed

theorem reverse_call_graph_transpose_witness:
  "distinct (map fst ex_call_graph) \<and>
   (''Svc:q'' \<in> set (dict_get ex_call_graph ''A:h'' []) \<longleftrightarrow>
      ''A:h'' \<in> set (dict_get (build_reverse_call_graph ex_call_graph) ''Svc:q'' [])) \<and>
   ''Svc:q'' \<in> set (dict_get ex_call_graph ''A:h'' []) \<and>
   build_reverse_call_graph ex_call_graph =
     [(''Svc:q'', [''A:h'']), (''Statement:executeQuery'', [''Svc:q''])]"
proof -
  have d: "distinct (map fst ex_call_graph)" by (simp add: ex_call_graph_def)
  have r: "build_reverse_call_graph ex_call_graph =
     [(''Svc:q'', [''A:h'']), (''Statement:executeQuery'', [''Svc:q''])]" by code_simp
  have m: "''Svc:q'' \<in> set (dict_get ex_call_graph ''A:h'' [])"
    by (simp add: ex_call_graph_def dict_get_def)
  from reverse_call_graph_transpose [OF d, of "''Svc:q''" "''A:h''"] d r m show ?thesis
    by blast
qed

subsection \<open>The depth handed to the search by \<open>find_vulnerabilities\<close>\<close>

text \<open>
  \<open>find_vulnerabilities\<close> reads \<open>depth\<close> from the rule bundle (15 when absent), raises it
  to at least 15 and passes it to \<open>_trace_back\<close> for every sink point.
\<close>

definition find_vulnerabilities_depth :: "int option \<Rightarrow> int" where
  "find_vulnerabilities_depth rules_depth =
     (let depth = (case rules_depth of None \<Rightarrow> 15 | Some d \<Rightarrow> d) in max depth 15)"

definition find_vulnerabilities_trace ::
  "class_methods \<Rightarrow> call_graph \<Rightarrow> (nat \<Rightarrow> bool) \<Rightarrow> int option \<Rightarrow> string \<Rightarrow> error + string list list" where
  "find_vulnerabilities_trace cm rcg should_stop rules_depth sink_point =
     trace_back cm rcg should_stop sink_point (find_vulnerabilities_depth rules_depth)"

definition ex_deep_class_methods :: class_methods where
  "ex_deep_class_methods =
     [''C13'' \<mapsto> \<lparr>file_path = ''C13.java'',
                 methods = [''m'' \<mapsto> \<lparr>requires_params = True, has_mapping_annotation = True\<rparr>]\<rparr>]"

definition ex_deep_call_graph :: call_graph where
  "ex_deep_call_graph =
     [(''C13:m'', [''C12:m'']),
      (''C12:m'', [''C11:m'']),
      (''C11:m'', [''C10:m'']),
      (''C10:m'', [''C9:m'']),
      (''C9:m'', [''C8:m'']),
      (''C8:m'', [''C7:m'']),
      (''C7:m'', [''C6:m'']),
      (''C6:m'', [''C5:m'']),
      (''C5:m'', [''C4:m'']),
      (''C4:m'', [''C3:m'']),
      (''C3:m'', [''C2:m'']),
      (''C2:m'', [''C1:m'']),
      (''C1:m'', [''S:s''])]"

definition ex_deep_chain :: "string list" where
  "ex_deep_chain = [''C13:m'', ''C12:m'', ''C11:m'', ''C10:m'', ''C9:m'', ''C8:m'', ''C7:m'', ''C6:m'', ''C5:m'', ''C4:m'', ''C3:m'', ''C2:m'', ''C1:m'', ''S:s'']"

text \<open>
  C2 as stated fails: with a configured depth of 12 the search is capped at 15, not at 12,
  and a chain of 14 signatures (longer than 12 + 1) is returned.
\<close>

theorem depth_cap_counterexample:
  "find_vulnerabilities_trace ex_deep_class_methods (build_reverse_call_graph ex_deep_call_graph)
     never_stop (Some 12) ''S:s'' = Inr [ex_deep_chain] \<and>
   int (length ex_deep_chain) = 14 \<and>
   effective_max_depth (find_vulnerabilities_depth (Some 12)) = 15"
  by code_simp

text \<open>
  C2, amended. For every configured depth \<open>D\<close> (15 when the bundle has none) the cap used
  by the backtracking that \<open>find_vulnerabilities\<close> starts is \<open>max(D, 15)\<close>, and no
  returned chain has more than \<open>max(D, 15) + 1\<close> elements.
\<close>

theorem find_vulnerabilities_depth_cap:
  "effective_max_depth (find_vulnerabilities_depth rules_depth) =
     max (case rules_depth of None \<Rightarrow> 15 | Some d \<Rightarrow> d) 15 \<and>
   (find_vulnerabilities_trace cm rcg should_stop rules_depth sink = Inr paths \<longrightarrow>
    chain \<in> set paths \<longrightarrow>
    int (length chain) \<le> max (case rules_depth of None \<Rightarrow> 15 | Some d \<Rightarrow> d) 15 + 1)"
proof (intro conjI impI)
  show cap: "effective_max_depth (find_vulnerabilities_depth rules_depth) =
     max (case rules_depth of None \<Rightarrow> 15 | Some d \<Rightarrow> d) 15"
    by (simp add: effective_max_depth_def find_vulnerabilities_depth_def)
  assume run: "find_vulnerabilities_trace cm rcg should_stop rules_depth sink = Inr paths"
    and mem: "chain \<in> set paths"
  have "list_all (good_chain cm sink (effective_max_depth (find_vulnerabilities_depth rules_depth))) paths"
    using run unfolding find_vulnerabilities_trace_def trace_back_def
    by (rule trace_loop_invariant) (simp_all add: entry_ok_def)
  with mem have "good_chain cm sink (effective_max_depth (find_vulnerabilities_depth rules_depth)) chain"
    by (simp add: list_all_iff)
  then show "int (length chain) \<le> max (case rules_depth of None \<Rightarrow> 15 | Some d \<Rightarrow> d) 15 + 1"
    unfolding cap by (simp add: good_chain_def)
qed

theorem find_vulnerabilities_depth_cap_witness:
  "find_vulnerabilities_trace ex_deep_class_methods (build_reverse_call_graph ex_deep_call_graph)
     never_stop (Some 12) ''S:s'' = Inr [ex_deep_chain] \<and>
   effective_max_depth (find_vulnerabilities_depth (Some 12)) = 15 \<and>
   int (length ex_deep_chain) \<le> 16"
proof -
  have run: "find_vulnerabilities_trace ex_deep_class_methods
      (build_reverse_call_graph ex_deep_call_graph) never_stop (Some 12) ''S:s''
      = Inr [ex_deep_chain]"
    by code_simp
  from find_vulnerabilities_depth_cap [of "Some 12" ex_deep_class_methods
      "build_reverse_call_graph ex_deep_call_graph" never_stop "''S:s''" "[ex_deep_chain]"
      ex_deep_chain] run
  show ?thesis by simp
qed

section \<open>Rule matching\<close>

definition is_space :: "char \<Rightarrow> bool" where
  \<comment> \<open>the ASCII characters that \<open>str.strip()\<close> removes\<close>
  "is_space c \<longleftrightarrow> c \<in> set [CHR '' '', CHR 0x09, CHR 0x0A, CHR 0x0B, CHR 0x0C, CHR 0x0D,
                              CHR 0x1C, CHR 0x1D, CHR 0x1E, CHR 0x1F]"

definition strip :: "string \<Rightarrow> string" where
  "strip s = rev (dropWhile is_space (rev (dropWhile is_space s)))"

definition short_name :: "string \<Rightarrow> string" where
  \<comment> \<open>\<open>cls.split('.')[-1]\<close>; the split is never empty\<close>
  "short_name cls = last (str_split (CHR ''.'') cls)"

record rule =
  sink_name :: "string option"
  source_name :: "string option"
  sanitizer_name :: "string option"
  sinks :: "string list option"
  sources :: "string list option"
  sanitizers :: "string list option"

datatype rule_key = Sinks | Sources | Sanitizers

definition rule_items :: "rule \<Rightarrow> rule_key \<Rightarrow> string list" where
  \<comment> \<open>\<open>r.get(key, [])\<close>\<close>
  "rule_items r key =
     (case (case key of Sinks \<Rightarrow> sinks r | Sources \<Rightarrow> sources r | Sanitizers \<Rightarrow> sanitizers r) of
        None \<Rightarrow> [] | Some items \<Rightarrow> items)"

fun py_or :: "string option list \<Rightarrow> string \<Rightarrow> string" where
  \<comment> \<open>\<open>a or b or c or s\<close>: the first value that is neither \<open>None\<close> nor empty\<close>
  "py_or [] s = s"
| "py_or (None # xs) s = py_or xs s"
| "py_or (Some v # xs) s = (if v = [] then py_or xs s else v)"

definition match_item :: "string \<Rightarrow> string \<Rightarrow> rule \<Rightarrow> string \<Rightarrow> string list \<Rightarrow> string list" where
  \<comment> \<open>the body of the loop over the entries of one rule\<close>
  "match_item cls mtd r s hits =
     (if CHR '':'' \<notin> set s then hits
      else
        (case str_split1 (CHR '':'') s of
           [sc0, sm0] \<Rightarrow>
             (let sc = strip sc0; sm = strip sm0;
                  cls_short = short_name cls; sc_short = short_name sc;
                  methods = map strip (str_split (CHR ''|'') sm)
              in if (cls = sc \<or> cls_short = sc_short) \<and> mtd \<in> set methods then
                   (let hit_name = py_or [sanitizer_name r, source_name r, sink_name r] s
                    in if hit_name \<noteq> [] \<and> hit_name \<notin> set hits then hits @ [hit_name] else hits)
                 else hits)
         | _ \<Rightarrow> hits))"

definition rule_matches :: "string \<Rightarrow> rule list \<Rightarrow> rule_key \<Rightarrow> string list" where
  "rule_matches sig rules key =
     (if sig = [] \<or> CHR '':'' \<notin> set sig then []
      else
        (case str_split1 (CHR '':'') sig of
           [cls0, mtd0] \<Rightarrow>
             (let cls = strip cls0; mtd = strip mtd0
              in if cls = [] \<or> mtd = [] then []
                 else fold (\<lambda>r hits. fold (match_item cls mtd r) (rule_items r key) hits) rules [])
         | _ \<Rightarrow> []))"

text \<open>The matching rule in the words of the specification, for one rule entry \<open>sc:sm\<close>.\<close>

definition spec_entry_matches :: "string \<Rightarrow> string \<Rightarrow> string \<Rightarrow> bool" where
  "spec_entry_matches cls mtd s =
     (case str_split1 (CHR '':'') s of
        [sc, sm] \<Rightarrow>
          (cls = strip sc \<or> short_name cls = short_name (strip sc)) \<and>
          mtd \<in> set (map strip (str_split (CHR ''|'') (strip sm)))
      | _ \<Rightarrow> False)"


lemma str_split1_colon:
  "CHR '':'' \<in> set s \<Longrightarrow> \<exists>a b. str_split1 (CHR '':'') s = [a, b]"
  by (induction s) (auto split: list.splits)

lemma str_split1_no_colon:
  "c \<notin> set s \<Longrightarrow> str_split1 c s = [s]"
  by (induction s) (auto split: list.splits)

lemma py_or_nonempty: "s \<noteq> [] \<Longrightarrow> py_or xs s \<noteq> []"
  by (induction xs s rule: py_or.induct) auto

lemma match_item_mono: "hits \<noteq> [] \<Longrightarrow> match_item cls mtd r s hits \<noteq> []"
  by (auto simp: match_item_def Let_def split: list.splits)

lemma match_item_empty:
  "match_item cls mtd r s hits = [] \<longleftrightarrow> hits = [] \<and> \<not> spec_entry_matches cls mtd s"
proof (cases "CHR '':'' \<in> set s")
  case False
  then show ?thesis
    by (auto simp: match_item_def spec_entry_matches_def str_split1_no_colon)
next
  case True
  then obtain a b where ab: "str_split1 (CHR '':'') s = [a, b]"
    using str_split1_colon by blast
  from True have ne: "py_or [sanitizer_name r, source_name r, sink_name r] s \<noteq> []"
    by (intro py_or_nonempty) auto
  show ?thesis using True ab ne
    by (auto simp: match_item_def spec_entry_matches_def Let_def)
qed

lemma fold_match_item_empty:
  "fold (match_item cls mtd r) items hits = [] \<longleftrightarrow>
     hits = [] \<and> (\<forall>s \<in> set items. \<not> spec_entry_matches cls mtd s)"
  by (induction items arbitrary: hits) (auto simp: match_item_empty)

lemma fold_rules_empty:
  "fold (\<lambda>r hits. fold (match_item cls mtd r) (rule_items r key) hits) rules hits = [] \<longleftrightarrow>
     hits = [] \<and> (\<forall>r \<in> set rules. \<forall>s \<in> set (rule_items r key). \<not> spec_entry_matches cls mtd s)"
  by (induction rules arbitrary: hits) (auto simp: fold_match_item_empty)

definition ex_rule :: "string \<Rightarrow> rule" where
  "ex_rule entry = \<lparr>sink_name = None, source_name = None, sanitizer_name = None,
                     sinks = Some [entry], sources = None, sanitizers = None\<rparr>"

text \<open>
  C8. For a signature \<open>Class:method\<close> whose class and method parts are not blank,
  \<open>_rule_matches\<close> returns a hit exactly when some entry \<open>sc:sm\<close> of some rule has the
  same class name or the same last dotted segment, and the method is one of the names of
  \<open>sm\<close> split on \<open>|\<close> and trimmed. In particular \<open>B:m\<close> matches the entry \<open>A.B:m\<close> and
  \<open>A.B:m\<close> matches the entry \<open>B:m\<close>.
\<close>

theorem rule_matches_short_name:
  "(CHR '':'' \<in> set sig \<longrightarrow> str_split1 (CHR '':'') sig = [cls, mtd] \<longrightarrow>
    strip cls \<noteq> [] \<longrightarrow> strip mtd \<noteq> [] \<longrightarrow>
      (rule_matches sig rules key \<noteq> [] \<longleftrightarrow>
         (\<exists>r \<in> set rules. \<exists>s \<in> set (rule_items r key).
            spec_entry_matches (strip cls) (strip mtd) s))) \<and>
   rule_matches ''B:m'' [ex_rule ''A.B:m''] Sinks = [''A.B:m''] \<and>
   rule_matches ''A.B:m'' [ex_rule ''B:m''] Sinks = [''B:m'']"
proof (intro conjI impI)
  assume "CHR '':'' \<in> set sig" "str_split1 (CHR '':'') sig = [cls, mtd]"
    "strip cls \<noteq> []" "strip mtd \<noteq> []"
  then show "rule_matches sig rules key \<noteq> [] \<longleftrightarrow>
         (\<exists>r \<in> set rules. \<exists>s \<in> set (rule_items r key).
            spec_entry_matches (strip cls) (strip mtd) s)"
    by (auto simp: rule_matches_def Let_def fold_rules_empty)
next
  show "rule_matches ''B:m'' [ex_rule ''A.B:m''] Sinks = [''A.B:m'']" by code_simp
next
  show "rule_matches ''A.B:m'' [ex_rule ''B:m''] Sinks = [''B:m'']" by code_simp
qed

theorem rule_matches_short_name_witness:
  "CHR '':'' \<in> set ''pkg.A.B:m'' \<and> str_split1 (CHR '':'') ''pkg.A.B:m'' = [''pkg.A.B'', ''m''] \<and>
   strip ''pkg.A.B'' \<noteq> [] \<and> strip ''m'' \<noteq> [] \<and>
   rule_matches ''pkg.A.B:m'' [ex_rule ''A.B:m|n''] Sinks \<noteq> [] \<and>
   spec_entry_matches (strip ''pkg.A.B'') (strip ''m'') ''A.B:m|n''"
proof -
  have a: "CHR '':'' \<in> set ''pkg.A.B:m''" by simp
  have b: "str_split1 (CHR '':'') ''pkg.A.B:m'' = [''pkg.A.B'', ''m'']" by simp
  have c: "strip ''pkg.A.B'' \<noteq> []" "strip ''m'' \<noteq> []" by code_simp+
  have d: "rule_matches ''pkg.A.B:m'' [ex_rule ''A.B:m|n''] Sinks \<noteq> []" by code_simp
  have e: "rule_items (ex_rule ''A.B:m|n'') Sinks = [''A.B:m|n'']"
    by (simp add: rule_items_def ex_rule_def)
  from rule_matches_short_name [of "''pkg.A.B:m''" "''pkg.A.B''" "''m''" "[ex_rule ''A.B:m|n'']" Sinks]
    a b c d e
  show ?thesis by simp
qed

section \<open>Chain enrichment and scoring\<close>

text \<open>
  Characters are ASCII; \<open>str.upper()\<close> and \<open>str.lower()\<close> change the letters only.
  Scores are Python floats in the source; here they are exact rationals, a decimal
  literal standing for the decimal it writes.
\<close>

definition upper_char :: "char \<Rightarrow> char" where
  "upper_char c = (let n = (of_char c :: nat) in if 97 \<le> n \<and> n \<le> 122 then char_of (n - 32) else c)"

definition lower_char :: "char \<Rightarrow> char" where
  "lower_char c = (let n = (of_char c :: nat) in if 65 \<le> n \<and> n \<le> 90 then char_of (n + 32) else c)"

definition upper :: "string \<Rightarrow> string" where
  "upper s = map upper_char s"

definition lower :: "string \<Rightarrow> string" where
  "lower s = map lower_char s"

record rules =
  sink_rules :: "rule list"
  source_rules :: "rule list"
  sanitizer_rules :: "rule list"
  pattern_rules :: "(string, string list) dict"

definition is_sanitized :: "rules \<Rightarrow> string list \<Rightarrow> string list" where
  "is_sanitized rules chain =
     (case sanitizer_rules rules of
        [] \<Rightarrow> []
      | r0 # _ \<Rightarrow>
          (let key = (if sanitizers r0 \<noteq> None then Sanitizers else Sinks);
               found = concat (map (\<lambda>sig. if sig = [] then []
                                          else rule_matches sig (sanitizer_rules rules) key) chain)
           in remdups found))"

definition find_sources :: "rules \<Rightarrow> string list \<Rightarrow> string list" where
  "find_sources rules chain =
     (case source_rules rules of
        [] \<Rightarrow> []
      | r0 # _ \<Rightarrow>
          (let key = (if sources r0 \<noteq> None then Sources else Sinks);
               found = concat (map (\<lambda>sig. if sig = [] then []
                                          else rule_matches sig (source_rules rules) key) chain)
           in remdups found))"

definition pattern_sig :: "string \<Rightarrow> string option" where
  \<comment> \<open>\<open>s.split(':', 1)[0].split('.')[-1] + ':' + s.split(':', 1)[1]\<close>; no colon raises\<close>
  "pattern_sig s =
     (case str_split1 (CHR '':'') s of
        [c, m] \<Rightarrow> Some (short_name c @ '':'' @ m)
      | _ \<Rightarrow> None)"

definition pattern_sigs :: "string list \<Rightarrow> string list" where
  \<comment> \<open>the set comprehension under \<open>try\<close>: any entry that raises empties the whole set\<close>
  "pattern_sigs sig_list = (case those (map pattern_sig sig_list) of None \<Rightarrow> [] | Some sigs \<Rightarrow> sigs)"

definition get_pattern_hits :: "rules \<Rightarrow> (string list \<Rightarrow> bool) \<Rightarrow> string list \<Rightarrow> string list" where
  \<comment> \<open>\<open>detect_sql_concat_text\<close> stands for \<open>_detect_sql_concat_text\<close>, which reads the
      project's files and searches them with regular expressions\<close>
  "get_pattern_hits rules detect_sql_concat_text chain =
     (let hits = concat (map (\<lambda>(pname, sig_list).
                    map (\<lambda>_. pname) (filter (\<lambda>sig. sig \<in> set (pattern_sigs sig_list)) chain))
                  (pattern_rules rules));
          hits = (if detect_sql_concat_text chain then hits @ [''SQL_CONCAT_TEXT''] else hits)
      in remdups hits)"

definition score_chain ::
  "rules \<Rightarrow> (string list \<Rightarrow> bool) \<Rightarrow> string list \<Rightarrow> string option \<Rightarrow> rat" where
  "score_chain rules detect_sql_concat_text chain sink_nm =
     (if chain = [] then 0
      else
        (let score = 1;
             sink_name_upper = upper (case sink_nm of None \<Rightarrow> [] | Some s \<Rightarrow> s);
             found_sanitizers = is_sanitized rules chain;
             score = (if found_sanitizers \<noteq> [] then
                        (if length found_sanitizers \<ge> 2 then score - 0.5 else score - 0.4)
                      else score);
             found_sources = find_sources rules chain;
             score = (if found_sources \<noteq> [] then
                        (if length found_sources \<ge> 2 then score + 0.4 else score + 0.3)
                      else score);
             pattern_hits = get_pattern_hits rules detect_sql_concat_text chain;
             score = (if sink_name_upper = ''SQLI'' \<and>
                         (''SQL_CONCAT'' \<in> set pattern_hits \<or> ''SQL_CONCAT_TEXT'' \<in> set pattern_hits)
                      then score + 0.3 else score);
             chain_length = length chain;
             score = (if chain_length > 20 then score - 0.1
                      else if chain_length < 3 then score + 0.1 else score)
         in max 0 (min 1 score)))"

definition sanitizer_delta :: "nat \<Rightarrow> rat" where
  "sanitizer_delta n = (if n = 0 then 0 else if n \<ge> 2 then - 0.5 else - 0.4)"

definition source_delta :: "nat \<Rightarrow> rat" where
  "source_delta n = (if n = 0 then 0 else if n \<ge> 2 then 0.4 else 0.3)"

definition other_delta :: "bool \<Rightarrow> nat \<Rightarrow> rat" where
  "other_delta sql len =
     (if sql then 0.3 else 0) + (if len > 20 then - 0.1 else if len < 3 then 0.1 else 0)"

lemma sub_step: "(if a then (if b then (s::rat) - x else s - y) else s) = s + (if a then (if b then - x else - y) else 0)"
  by simp

lemma add_step: "(if a then (if b then (s::rat) + x else s + y) else s) = s + (if a then (if b then x else y) else 0)"
  by simp

lemma sql_step: "(if e then (s::rat) + x else s) = s + (if e then x else 0)"
  by simp

lemma len_step: "(if f then (s::rat) - x else if g then s + y else s) = s + (if f then - x else if g then y else 0)"
  by simp

lemma score_chain_deltas:
  "chain \<noteq> [] \<Longrightarrow>
   score_chain rules t chain sink_nm =
     max 0 (min 1 (1 + sanitizer_delta (length (is_sanitized rules chain))
                     + source_delta (length (find_sources rules chain))
                     + other_delta
                         (upper (case sink_nm of None \<Rightarrow> [] | Some s \<Rightarrow> s) = ''SQLI'' \<and>
                            (''SQL_CONCAT'' \<in> set (get_pattern_hits rules t chain) \<or>
                             ''SQL_CONCAT_TEXT'' \<in> set (get_pattern_hits rules t chain)))
                         (length chain)))"
proof -
  assume ne: "chain \<noteq> []"
  have san: "sanitizer_delta (length xs) = (if xs \<noteq> [] then (if length xs \<ge> 2 then - 0.5 else - 0.4) else 0)"
    for xs :: "string list"
    by (simp add: sanitizer_delta_def)
  have src: "source_delta (length xs) = (if xs \<noteq> [] then (if length xs \<ge> 2 then 0.4 else 0.3) else 0)"
    for xs :: "string list"
    by (simp add: source_delta_def)
  show ?thesis
    unfolding score_chain_def Let_def san src other_delta_def
    using ne
    apply (simp only: if_False)
    apply (subst len_step)
    apply (subst sql_step)
    apply (subst add_step)
    apply (subst sub_step)
    apply (simp only: add.assoc)
    done
qed

lemma sanitizer_delta_antimono: "m \<le> n \<Longrightarrow> sanitizer_delta n \<le> sanitizer_delta m"
  by (simp add: sanitizer_delta_def)

lemma source_delta_mono: "m \<le> n \<Longrightarrow> source_delta m \<le> source_delta n"
  by (simp add: source_delta_def)

lemma clamp_mono: "a \<le> b \<Longrightarrow> max 0 (min 1 a) \<le> max 0 (min 1 (b::rat))"
  by (simp add: max_def min_def)

lemma clamp_range: "0 \<le> max 0 (min 1 (x::rat)) \<and> max 0 (min 1 x) \<le> 1"
  by simp

lemma score_chain_range: "0 \<le> score_chain rules t chain sn \<and> score_chain rules t chain sn \<le> 1"
proof (cases "chain = []")
  case True
  then show ?thesis by (simp add: score_chain_def)
next
  case False
  show ?thesis
    unfolding score_chain_deltas [OF False] by (rule clamp_range)
qed

lemma find_sources_distinct: "distinct (find_sources r c)"
  by (simp add: find_sources_def Let_def split: list.splits)

lemma is_sanitized_distinct: "distinct (is_sanitized r c)"
  by (simp add: is_sanitized_def Let_def split: list.splits)

lemma find_sources_length:
  "set (find_sources r1 c1) = set (find_sources r2 c2) \<Longrightarrow>
   length (find_sources r1 c1) = length (find_sources r2 c2)"
  by (metis distinct_card find_sources_distinct)

lemma is_sanitized_length:
  "set (is_sanitized r1 c1) = set (is_sanitized r2 c2) \<Longrightarrow>
   length (is_sanitized r1 c1) = length (is_sanitized r2 c2)"
  by (metis distinct_card is_sanitized_distinct)

definition no_sql_text :: "string list \<Rightarrow> bool" where
  \<comment> \<open>a project in which no method body shows SQL string concatenation\<close>
  "no_sql_text chain = False"

definition ex_rules_plain :: rules where
  "ex_rules_plain = \<lparr>sink_rules = [], source_rules = [], sanitizer_rules = [], pattern_rules = []\<rparr>"

definition ex_rules_sanitizer :: rules where
  "ex_rules_sanitizer = ex_rules_plain
     \<lparr>sanitizer_rules := [\<lparr>sink_name = None, source_name = None, sanitizer_name = Some ''escapeSql'',
                            sinks = None, sources = None, sanitizers = Some [''Encoder:escapeSql'']\<rparr>]\<rparr>"

definition ex_rules_source :: rules where
  "ex_rules_source = ex_rules_sanitizer
     \<lparr>source_rules := [\<lparr>sink_name = None, source_name = Some ''getParameter'', sanitizer_name = None,
                         sinks = None, sources = Some [''HttpServletRequest:getParameter|getHeader''],
                         sanitizers = None\<rparr>]\<rparr>"

definition ex_chain :: "string list" where
  "ex_chain = [''A:h'', ''HttpServletRequest:getParameter'', ''Encoder:escapeSql'',
               ''Statement:executeQuery'']"

text \<open>
  C4. The chain score is monotone in the evidence counts. Between two scored chains of
  the same length with the same source and pattern evidence, the one with more matched
  sanitizers never scores higher; with the same sanitizer and pattern evidence, the one
  with more matched sources never scores lower. Every score lies in \<open>[0, 1]\<close>.
\<close>

theorem score_chain_monotone:
  "(length chain1 = length chain2 \<longrightarrow>
    set (find_sources rules1 chain1) = set (find_sources rules2 chain2) \<longrightarrow>
    set (get_pattern_hits rules1 text1 chain1) = set (get_pattern_hits rules2 text2 chain2) \<longrightarrow>
    length (is_sanitized rules1 chain1) \<le> length (is_sanitized rules2 chain2) \<longrightarrow>
      score_chain rules2 text2 chain2 sink_nm \<le> score_chain rules1 text1 chain1 sink_nm) \<and>
   (length chain3 = length chain4 \<longrightarrow>
    set (is_sanitized rules3 chain3) = set (is_sanitized rules4 chain4) \<longrightarrow>
    set (get_pattern_hits rules3 text3 chain3) = set (get_pattern_hits rules4 text4 chain4) \<longrightarrow>
    length (find_sources rules3 chain3) \<le> length (find_sources rules4 chain4) \<longrightarrow>
      score_chain rules3 text3 chain3 sink_nm \<le> score_chain rules4 text4 chain4 sink_nm) \<and>
   0 \<le> score_chain rules text chain sink_nm \<and> score_chain rules text chain sink_nm \<le> 1"
proof (intro conjI impI)
  assume len: "length chain1 = length chain2"
    and src: "set (find_sources rules1 chain1) = set (find_sources rules2 chain2)"
    and pat: "set (get_pattern_hits rules1 text1 chain1) = set (get_pattern_hits rules2 text2 chain2)"
    and san: "length (is_sanitized rules1 chain1) \<le> length (is_sanitized rules2 chain2)"
  show "score_chain rules2 text2 chain2 sink_nm \<le> score_chain rules1 text1 chain1 sink_nm"
  proof (cases "chain1 = []")
    case True
    with len show ?thesis by (simp add: score_chain_def)
  next
    case False
    with len have ne2: "chain2 \<noteq> []" by auto
    show ?thesis
      unfolding score_chain_deltas [OF False] score_chain_deltas [OF ne2]
        find_sources_length [OF src] pat len
      by (intro clamp_mono add_mono order_refl sanitizer_delta_antimono san)
  qed
next
  assume len: "length chain3 = length chain4"
    and san: "set (is_sanitized rules3 chain3) = set (is_sanitized rules4 chain4)"
    and pat: "set (get_pattern_hits rules3 text3 chain3) = set (get_pattern_hits rules4 text4 chain4)"
    and src: "length (find_sources rules3 chain3) \<le> length (find_sources rules4 chain4)"
  show "score_chain rules3 text3 chain3 sink_nm \<le> score_chain rules4 text4 chain4 sink_nm"
  proof (cases "chain3 = []")
    case True
    with len show ?thesis by (simp add: score_chain_def)
  next
    case False
    with len have ne4: "chain4 \<noteq> []" by auto
    show ?thesis
      unfolding score_chain_deltas [OF False] score_chain_deltas [OF ne4]
        is_sanitized_length [OF san] pat len
      by (intro clamp_mono add_mono order_refl source_delta_mono src)
  qed
next
  show "0 \<le> score_chain rules text chain sink_nm" using score_chain_range by blast
next
  show "score_chain rules text chain sink_nm \<le> 1" using score_chain_range by blast
qed

theorem score_chain_monotone_witness:
  "length (is_sanitized ex_rules_plain ex_chain) = 0 \<and>
   length (is_sanitized ex_rules_sanitizer ex_chain) = 1 \<and>
   length (find_sources ex_rules_sanitizer ex_chain) = 0 \<and>
   length (find_sources ex_rules_source ex_chain) = 1 \<and>
   score_chain ex_rules_plain no_sql_text ex_chain (Some ''sqli'') = 1 \<and>
   score_chain ex_rules_sanitizer no_sql_text ex_chain (Some ''sqli'') = 0.6 \<and>
   score_chain ex_rules_source no_sql_text ex_chain (Some ''sqli'') = 0.9 \<and>
   score_chain ex_rules_sanitizer no_sql_text ex_chain (Some ''sqli'')
     \<le> score_chain ex_rules_plain no_sql_text ex_chain (Some ''sqli'') \<and>
   score_chain ex_rules_sanitizer no_sql_text ex_chain (Some ''sqli'')
     \<le> score_chain ex_rules_source no_sql_text ex_chain (Some ''sqli'')"
proof -
  have s0: "is_sanitized ex_rules_plain ex_chain = []" by code_simp
  have s1: "is_sanitized ex_rules_sanitizer ex_chain = [''escapeSql'']" by code_simp
  have s2: "is_sanitized ex_rules_source ex_chain = [''escapeSql'']" by code_simp
  have f0: "find_sources ex_rules_plain ex_chain = []" by code_simp
  have f1: "find_sources ex_rules_sanitizer ex_chain = []" by code_simp
  have f2: "find_sources ex_rules_source ex_chain = [''getParameter'']" by code_simp
  have p: "get_pattern_hits ex_rules_plain no_sql_text ex_chain = []"
    "get_pattern_hits ex_rules_sanitizer no_sql_text ex_chain = []"
    "get_pattern_hits ex_rules_source no_sql_text ex_chain = []" by code_simp+
  have v: "score_chain ex_rules_plain no_sql_text ex_chain (Some ''sqli'') = 1"
    "score_chain ex_rules_sanitizer no_sql_text ex_chain (Some ''sqli'') = 0.6"
    "score_chain ex_rules_source no_sql_text ex_chain (Some ''sqli'') = 0.9" by code_simp+
  from score_chain_monotone [of ex_chain ex_chain ex_rules_plain ex_rules_sanitizer
      no_sql_text no_sql_text "Some ''sqli''" ex_chain ex_chain ex_rules_sanitizer ex_rules_source
      no_sql_text no_sql_text]
    s0 s1 s2 f0 f1 f2 p v
  show ?thesis by simp
qed

section \<open>The parsed-file cache\<close>

text \<open>
  \<open>_file_cache\<close> maps a file path to the parsed tree and the time it was parsed at.
  Reading the file and parsing it are the environment: \<open>read_lines\<close> is \<open>None\<close> where
  \<open>open\<close> or \<open>readlines\<close> raises, \<open>parse\<close> is \<open>None\<close> where \<open>javalang\<close> raises. The clock
  is read once, at the start of the call.
\<close>

type_synonym 't file_cache = "(string, 't \<times> rat) dict"

definition cache_ttl :: rat where
  "cache_ttl = 300"

definition max_file_lines :: nat where
  "max_file_lines = 200000"

definition parse_file_with_cache ::
  "(string \<Rightarrow> string list option) \<Rightarrow> (string \<Rightarrow> 't option) \<Rightarrow> rat \<Rightarrow> string \<Rightarrow> 't file_cache
     \<Rightarrow> 't option \<times> 't file_cache" where
  "parse_file_with_cache read_lines parse current_time path cache =
     (case (case map_of cache path of
              Some (cached_tree, cache_time) \<Rightarrow>
                if current_time - cache_time < cache_ttl then Some cached_tree else None
            | None \<Rightarrow> None) of
        Some cached_tree \<Rightarrow> (Some cached_tree, cache)
      | None \<Rightarrow>
          (case read_lines path of
             None \<Rightarrow> (None, cache)
           | Some lines \<Rightarrow>
               if length lines > max_file_lines then (None, cache)
               else
                 (case parse (concat lines) of
                    None \<Rightarrow> (None, cache)
                  | Some tree \<Rightarrow>
                      (let cache1 = AList.update path (tree, current_time) cache;
                           cache2 =
                             (if length cache1 > 1000 then
                                (let expired = map fst (filter (\<lambda>(k, (_, t)). current_time - t > cache_ttl) cache1)
                                 in fold AList.delete (take 100 expired) cache1)
                              else cache1)
                       in (Some tree, cache2)))))"

definition run_calls ::
  "(string \<Rightarrow> string list option) \<Rightarrow> (string \<Rightarrow> 't option) \<Rightarrow> (rat \<times> string) list \<Rightarrow> 't file_cache
     \<Rightarrow> 't file_cache" where
  \<comment> \<open>a sequence of calls, each with the time it is made at\<close>
  "run_calls read_lines parse calls cache =
     fold (\<lambda>(current_time, path) c. snd (parse_file_with_cache read_lines parse current_time path c))
       calls cache"

definition ex_read_lines :: "string \<Rightarrow> string list option" where
  "ex_read_lines path = Some [''class A {}'']"

definition ex_parse :: "string \<Rightarrow> unit option" where
  "ex_parse code = Some ()"

definition ex_many_calls :: "(rat \<times> string) list" where
  "ex_many_calls = map (\<lambda>n. (0, replicate n (CHR ''x'') @ ''.java'')) [0..<1001]"

lemma update_fresh: "k \<notin> fst ` set al \<Longrightarrow> AList.update k v al = al @ [(k, v)]"
  by (induction al) auto

lemma fresh_call:
  assumes "path \<notin> fst ` set cache" and "\<forall>(k, (tr, t)) \<in> set cache. t = 0"
  shows "snd (parse_file_with_cache ex_read_lines ex_parse 0 path cache) = cache @ [(path, ((), 0))]"
proof -
  have none: "map_of cache path = None"
    using assms(1) by (simp add: map_of_eq_None_iff)
  have noexp: "filter (\<lambda>(k, (_, t)). 0 - t > cache_ttl) (cache @ [(path, (tr, 0))]) = []"
    for tr :: unit
    using assms(2) by (auto simp: filter_empty_conv cache_ttl_def)
  show ?thesis
    unfolding parse_file_with_cache_def Let_def none update_fresh [OF assms(1)] noexp
    by (simp add: ex_read_lines_def ex_parse_def max_file_lines_def)
qed

lemma fresh_calls:
  assumes "distinct paths" and "set paths \<inter> fst ` set cache = {}"
    and "\<forall>(k, (tr, t)) \<in> set cache. t = 0"
  shows "length (run_calls ex_read_lines ex_parse (map (\<lambda>p. (0, p)) paths) cache)
         = length cache + length paths"
  using assms
proof (induction paths arbitrary: cache)
  case Nil
  then show ?case by (simp add: run_calls_def)
next
  case (Cons p ps)
  have step: "snd (parse_file_with_cache ex_read_lines ex_parse 0 p cache) = cache @ [(p, ((), 0))]"
    using Cons.prems by (intro fresh_call) auto
  have "length (run_calls ex_read_lines ex_parse (map (\<lambda>p. (0, p)) ps) (cache @ [(p, ((), 0))]))
        = length (cache @ [(p, ((), 0))]) + length ps"
    using Cons.prems by (intro Cons.IH) auto
  then show ?case by (simp add: run_calls_def step)
qed

text \<open>
  C10 as stated fails: 1001 different files parsed at the same instant leave 1001 entries
  in the cache, since the clean-up removes expired entries only and none has expired.
\<close>

theorem cache_exceeds_1000_counterexample:
  "length (run_calls ex_read_lines ex_parse ex_many_calls []) = 1001"
proof -
  have inj: "inj (\<lambda>n. replicate n (CHR ''x'') @ ''.java'')"
    by (rule injI) (metis length_replicate append_same_eq)
  have "distinct (map (\<lambda>n. replicate n (CHR ''x'') @ ''.java'') [0..<1001])"
    by (simp add: distinct_map inj_on_subset [OF inj])
  from fresh_calls [OF this, of "[]"] show ?thesis
    by (simp add: ex_many_calls_def comp_def)
qed

lemma set_fold_delete:
  "set (fold AList.delete ks al) = {kv \<in> set al. fst kv \<notin> set ks}"
  by (induction ks arbitrary: al) (auto simp: AList.delete_eq)

lemma distinct_fold_delete:
  "distinct (map fst al) \<Longrightarrow> distinct (map fst (fold AList.delete ks al))"
  by (induction ks arbitrary: al) (auto simp: distinct_delete)

lemma delete_absent: "k \<notin> fst ` set al \<Longrightarrow> AList.delete k al = al"
  by (induction al) auto

lemma length_delete: "distinct (map fst al) \<Longrightarrow> length al \<le> Suc (length (AList.delete k al))"
  by (induction al) (auto simp: delete_absent)

lemma length_fold_delete:
  "distinct (map fst al) \<Longrightarrow> length al \<le> length (fold AList.delete ks al) + length ks"
proof (induction ks arbitrary: al)
  case Nil
  then show ?case by simp
next
  case (Cons k ks)
  have "length (AList.delete k al) \<le> length (fold AList.delete ks (AList.delete k al)) + length ks"
    using Cons.prems by (intro Cons.IH) (simp add: distinct_delete)
  with length_delete [OF Cons.prems, of k] show ?case by simp
qed

lemma length_fold_delete_le: "length (fold AList.delete ks al) \<le> length al"
proof (induction ks arbitrary: al)
  case Nil
  then show ?case by simp
next
  case (Cons k ks)
  have "length (AList.delete k al) \<le> length al" by (rule length_delete_le)
  with Cons.IH [of "AList.delete k al"] show ?case by simp
qed

lemma length_update_le: "length (AList.update k v al) \<le> Suc (length al)"
  by (induction al) auto

lemma length_update_ge: "length al \<le> length (AList.update k v al)"
  by (induction al) auto

lemma update_keeps_others: "(k', v') \<in> set al \<Longrightarrow> k' \<noteq> k \<Longrightarrow> (k', v') \<in> set (AList.update k v al)"
  by (induction al) auto

definition parse_fresh :: "(string \<Rightarrow> string list option) \<Rightarrow> (string \<Rightarrow> 't option) \<Rightarrow> string \<Rightarrow> 't option" where
  \<comment> \<open>what a call returns when it does not answer from the cache\<close>
  "parse_fresh read_lines parse path =
     (case read_lines path of
        None \<Rightarrow> None
      | Some lines \<Rightarrow> if length lines > max_file_lines then None else parse (concat lines))"

definition evict :: "rat \<Rightarrow> 't file_cache \<Rightarrow> 't file_cache" where
  \<comment> \<open>the clean-up that follows an insertion\<close>
  "evict current_time cache1 =
     (if length cache1 > 1000 then
        fold AList.delete
          (take 100 (map fst (filter (\<lambda>(k, (_, t)). current_time - t > cache_ttl) cache1))) cache1
      else cache1)"

lemma parse_file_with_cache_cases:
  "parse_file_with_cache read_lines parse now path cache =
     (case map_of cache path of
        Some (tr, t) \<Rightarrow>
          if now - t < cache_ttl then (Some tr, cache)
          else (case parse_fresh read_lines parse path of
                  None \<Rightarrow> (None, cache)
                | Some tree \<Rightarrow> (Some tree, evict now (AList.update path (tree, now) cache)))
      | None \<Rightarrow>
          (case parse_fresh read_lines parse path of
             None \<Rightarrow> (None, cache)
           | Some tree \<Rightarrow> (Some tree, evict now (AList.update path (tree, now) cache))))"
  unfolding parse_file_with_cache_def parse_fresh_def evict_def Let_def
  by (simp split: option.splits prod.splits)

lemma evict_properties:
  assumes "distinct (map fst cache1)"
  shows "distinct (map fst (evict now cache1))"
    and "length (evict now cache1) \<le> length cache1"
    and "length cache1 \<le> length (evict now cache1) + 100"
    and "(k, (tr, t)) \<in> set cache1 \<Longrightarrow> (k, (tr, t)) \<notin> set (evict now cache1) \<Longrightarrow> now - t > cache_ttl"
proof -
  let ?expired = "map fst (filter (\<lambda>(k, (_, t)). now - t > cache_ttl) cache1)"
  show "distinct (map fst (evict now cache1))"
    using assms by (simp add: evict_def distinct_fold_delete)
  show "length (evict now cache1) \<le> length cache1"
    by (simp add: evict_def length_fold_delete_le)
  have "length cache1 \<le> length (fold AList.delete (take 100 ?expired) cache1) + length (take 100 ?expired)"
    using assms by (rule length_fold_delete)
  moreover have "length (take 100 ?expired) \<le> 100" by simp
  ultimately have "length cache1 \<le> length (fold AList.delete (take 100 ?expired) cache1) + 100"
    by (rule order_trans [OF _ add_left_mono])
  then show "length cache1 \<le> length (evict now cache1) + 100"
    unfolding evict_def by (simp del: length_take)
  assume mem: "(k, (tr, t)) \<in> set cache1" and gone: "(k, (tr, t)) \<notin> set (evict now cache1)"
  from mem gone have "k \<in> set (take 100 ?expired)"
    by (auto simp: evict_def set_fold_delete split: if_splits)
  then have "k \<in> set ?expired" by (rule in_set_takeD)
  then obtain tr' t' where e: "(k, (tr', t')) \<in> set cache1" "now - t' > cache_ttl"
    by auto
  from assms mem e(1) have "(tr', t') = (tr, t)"
    by (meson eq_key_imp_eq_value)
  with e(2) show "now - t > cache_ttl" by simp
qed


lemma parse_file_with_cache_result:
  assumes "parse_file_with_cache read_lines parse now path cache = (res, cache')"
  shows "cache' = cache \<or>
         (\<exists>tree. res = Some tree \<and> cache' = evict now (AList.update path (tree, now) cache))"
proof (cases "parse_fresh read_lines parse path")
  case None
  with assms have "cache' = cache"
    unfolding parse_file_with_cache_cases by (auto split: option.splits if_splits)
  then show ?thesis by simp
next
  case (Some tree)
  with assms have "cache' = cache \<or>
      (res = Some tree \<and> cache' = evict now (AList.update path (tree, now) cache))"
    unfolding parse_file_with_cache_cases by (auto split: option.splits if_splits)
  then show ?thesis by blast
qed

lemma parse_file_with_cache_hit:
  assumes "parse_file_with_cache read_lines parse now path cache = (res, cache')"
    and "map_of cache path = Some (tr, t)"
  shows "if now - t < cache_ttl then res = Some tr \<and> cache' = cache
         else res = parse_fresh read_lines parse path"
  using assms unfolding parse_file_with_cache_cases
  by (cases "parse_fresh read_lines parse path") (auto split: if_splits)

text \<open>
  C10, amended. The cache is not bounded by 1000 entries. A call adds at most one entry;
  the clean-up that follows an insertion into a cache of more than 1000 entries removes
  at most 100 entries, and only entries older than the 300-second TTL. An entry answers
  a call only while it is younger than the TTL; otherwise the file is read and parsed
  again.
\<close>

theorem parse_file_with_cache_eviction:
  assumes "distinct (map fst cache)"
    and "parse_file_with_cache read_lines parse now path cache = (res, cache')"
  shows "distinct (map fst cache') \<and>
         length cache' \<le> length cache + 1 \<and>
         length cache \<le> length cache' + 100 \<and>
         (\<forall>k tr t. (k, (tr, t)) \<in> set cache \<and> k \<noteq> path \<and> (k, (tr, t)) \<notin> set cache'
            \<longrightarrow> now - t > cache_ttl) \<and>
         (\<forall>tr t. map_of cache path = Some (tr, t) \<longrightarrow>
            (if now - t < cache_ttl then res = Some tr \<and> cache' = cache
             else res = parse_fresh read_lines parse path))"
proof (cases "cache' = cache")
  case True
  with assms(1) parse_file_with_cache_hit [OF assms(2)] show ?thesis by auto
next
  case False
  with parse_file_with_cache_result [OF assms(2)] obtain tree where res: "res = Some tree"
    and c': "cache' = evict now (AList.update path (tree, now) cache)"
    by auto
  let ?c1 = "AList.update path (tree, now) cache"
  have d1: "distinct (map fst ?c1)" using assms(1) by (rule distinct_update)
  note ev = evict_properties [OF d1, where now = now]
  have a: "distinct (map fst cache')" using ev(1) c' by simp
  have b: "length cache' \<le> length cache + 1"
    using ev(2) length_update_le [of path "(tree, now)" cache] c' by simp
  have c: "length cache \<le> length cache' + 100"
    using ev(3) length_update_ge [of cache path "(tree, now)"] c' by simp
  have d: "\<forall>k tr t. (k, (tr, t)) \<in> set cache \<and> k \<noteq> path \<and> (k, (tr, t)) \<notin> set cache'
            \<longrightarrow> now - t > cache_ttl"
    using ev(4) c' update_keeps_others [of _ _ cache path "(tree, now)"] by blast
  have e: "\<forall>tr t. map_of cache path = Some (tr, t) \<longrightarrow>
            (if now - t < cache_ttl then res = Some tr \<and> cache' = cache
             else res = parse_fresh read_lines parse path)"
    using parse_file_with_cache_hit [OF assms(2)] by blast
  from a b c d e show ?thesis by blast
qed


definition ex_cache :: "unit file_cache" where
  "ex_cache = [(''A.java'', ((), 0)), (''B.java'', ((), 200))]"

theorem parse_file_with_cache_eviction_witness:
  "distinct (map fst ex_cache) \<and>
   parse_file_with_cache ex_read_lines ex_parse 400 ''A.java'' ex_cache
     = (Some (), [(''A.java'', ((), 400)), (''B.java'', ((), 200))]) \<and>
   map_of ex_cache ''A.java'' = Some ((), 0) \<and>
   \<not> (400 - 0 < cache_ttl) \<and>
   Some () = parse_fresh ex_read_lines ex_parse ''A.java'' \<and>
   length [(''A.java'', ((), 400::rat)), (''B.java'', ((), 200))] \<le> length ex_cache + 1"
proof -
  have d: "distinct (map fst ex_cache)" by (simp add: ex_cache_def)
  have run: "parse_file_with_cache ex_read_lines ex_parse 400 ''A.java'' ex_cache
     = (Some (), [(''A.java'', ((), 400)), (''B.java'', ((), 200))])"
    by (simp add: parse_file_with_cache_def ex_cache_def ex_read_lines_def ex_parse_def
        cache_ttl_def max_file_lines_def)
  have m: "map_of ex_cache ''A.java'' = Some ((), 0)" by (simp add: ex_cache_def)
  have t: "\<not> (400 - 0 < cache_ttl)" by (simp add: cache_ttl_def)
  from parse_file_with_cache_eviction [OF d run] m t show ?thesis
    using d run by auto
qed

section \<open>The template scanner\<close>

subsection \<open>String operations\<close>

definition starts_with :: "string \<Rightarrow> string \<Rightarrow> bool" where
  \<comment> \<open>\<open>s.startswith(p)\<close>\<close>
  "starts_with s p \<longleftrightarrow> take (length p) s = p"

definition ends_with :: "string \<Rightarrow> string \<Rightarrow> bool" where
  "ends_with s p \<longleftrightarrow> starts_with (rev s) (rev p)"

fun contains :: "string \<Rightarrow> string \<Rightarrow> bool" where
  \<comment> \<open>\<open>sub in s\<close>\<close>
  "contains sub [] = (sub = [])"
| "contains sub (c # cs) = (starts_with (c # cs) sub \<or> contains sub cs)"

fun str_find :: "string \<Rightarrow> string \<Rightarrow> nat option" where
  \<comment> \<open>\<open>s.find(sub)\<close>, with \<open>None\<close> for -1\<close>
  "str_find sub [] = (if sub = [] then Some 0 else None)"
| "str_find sub (c # cs) =
     (if starts_with (c # cs) sub then Some 0 else map_option Suc (str_find sub cs))"

fun str_rfind :: "string \<Rightarrow> string \<Rightarrow> nat option" where
  \<comment> \<open>\<open>s.rfind(sub)\<close>, with \<open>None\<close> for -1\<close>
  "str_rfind sub [] = (if sub = [] then Some 0 else None)"
| "str_rfind sub (c # cs) =
     (case str_rfind sub cs of
        Some i \<Rightarrow> Some (Suc i)
      | None \<Rightarrow> if starts_with (c # cs) sub then Some 0 else None)"

definition count_char :: "char \<Rightarrow> string \<Rightarrow> nat" where
  "count_char c s = length (filter (\<lambda>x. x = c) s)"

fun join :: "string \<Rightarrow> string list \<Rightarrow> string" where
  \<comment> \<open>\<open>sep.join(xs)\<close>\<close>
  "join sep [] = []"
| "join sep [x] = x"
| "join sep (x # y # ys) = x @ sep @ join sep (y # ys)"

definition slice :: "'a list \<Rightarrow> nat \<Rightarrow> nat \<Rightarrow> 'a list" where
  \<comment> \<open>\<open>xs[a:b]\<close> for indices that are not negative\<close>
  "slice xs a b = take (b - a) (drop a xs)"

function str_replace :: "string \<Rightarrow> string \<Rightarrow> string \<Rightarrow> string" where
  \<comment> \<open>\<open>s.replace(old, new)\<close> for a non-empty \<open>old\<close>\<close>
  "str_replace old new [] = []"
| "str_replace old new (c # cs) =
     (if old \<noteq> [] \<and> starts_with (c # cs) old
      then new @ str_replace old new (drop (length old) (c # cs))
      else c # str_replace old new cs)"
  by pat_completeness auto
termination
  by (relation "measure (\<lambda>(old, new, s). length s)") (auto simp: neq_Nil_conv)

definition is_alpha :: "char \<Rightarrow> bool" where
  "is_alpha c = (let n = (of_char c :: nat) in (65 \<le> n \<and> n \<le> 90) \<or> (97 \<le> n \<and> n \<le> 122))"

definition is_hint_char :: "char \<Rightarrow> bool" where
  \<comment> \<open>the class \<open>[A-Za-z0-9_.]\<close>\<close>
  "is_hint_char c =
     (let n = (of_char c :: nat) in is_alpha c \<or> (48 \<le> n \<and> n \<le> 57) \<or> c = CHR ''_'' \<or> c = CHR ''.'')"

function hint_tokens :: "string \<Rightarrow> string list" where
  \<comment> \<open>\<open>re.findall(r'[A-Za-z][A-Za-z0-9_.]{2,}', pat_str)\<close>: leftmost, greedy, not overlapping\<close>
  "hint_tokens [] = []"
| "hint_tokens (c # cs) =
     (if is_alpha c \<and> length (takeWhile is_hint_char cs) \<ge> 2
      then (c # takeWhile is_hint_char cs) # hint_tokens (dropWhile is_hint_char cs)
      else hint_tokens cs)"
  by pat_completeness auto
termination
  by (relation "measure length") (auto simp: le_imp_less_Suc length_dropWhile_le)

definition hint_words :: "string \<Rightarrow> string list" where
  "hint_words pat_str = map lower (hint_tokens pat_str)"

record template_rule =
  name :: "string option"
  vul_type :: "string option"
  desc :: "string option"
  severity :: "string option"
  file_exts :: "string list"
  patterns :: "string list"
  must_substrings :: "string list"
  exclude_substrings :: "string list"
  force_regex :: bool
  rule_file_path :: "string option"

definition count_in :: "string list \<Rightarrow> string \<Rightarrow> nat" where
  \<comment> \<open>\<open>sum(1 for kw in kws if kw in text)\<close>\<close>
  "count_in kws text = length (filter (\<lambda>kw. contains kw text) kws)"

definition any_in :: "string list \<Rightarrow> string \<Rightarrow> bool" where
  \<comment> \<open>\<open>any(kw in text for kw in kws)\<close>\<close>
  "any_in kws text = list_ex (\<lambda>kw. contains kw text) kws"

subsection \<open>The false-positive filter\<close>

definition in_comment_context :: "string \<Rightarrow> string list \<Rightarrow> nat \<Rightarrow> nat \<Rightarrow> bool" where
  "in_comment_context line lines line_no context_window =
     (let context_start = line_no - context_window - 1;
          context_end = min (length lines) (line_no + context_window);
          context = concat (slice lines context_start context_end)
      in case str_find line context of
           None \<Rightarrow> False
         | Some line_pos \<Rightarrow>
             (let before_line = take line_pos context
              in if contains ''<!--'' before_line \<and> \<not> contains ''-->'' before_line then True
                 else
                   (let comment_start = str_rfind ''/*'' (take line_pos context);
                        comment_end = str_find ''*/'' (drop line_pos context)
                    in comment_start \<noteq> None \<and>
                       (case comment_end of None \<Rightarrow> True | Some e \<Rightarrow> e > 0))))"

definition safe_tail :: "string \<Rightarrow> bool" where
  \<comment> \<open>what follows the keyword in \<open>password\s*=\s*["\']?\*+["\']?\<close>\<close>
  "safe_tail s =
     (case dropWhile is_space s of
        [] \<Rightarrow> False
      | c # r \<Rightarrow>
          c = CHR ''='' \<and>
          (case dropWhile is_space r of
             [] \<Rightarrow> False
           | q # r2 \<Rightarrow>
               q = CHR ''*'' \<or>
               ((q = CHR 0x22 \<or> q = CHR 0x27) \<and> (case r2 of [] \<Rightarrow> False | x # _ \<Rightarrow> x = CHR ''*''))))"

fun safe_pattern :: "string \<Rightarrow> string \<Rightarrow> bool" where
  \<comment> \<open>\<open>re.search\<close> of one of the masked-credential patterns in the lower-cased line\<close>
  "safe_pattern kw [] = False"
| "safe_pattern kw (c # cs) =
     ((starts_with (c # cs) kw \<and> safe_tail (drop (length kw) (c # cs))) \<or> safe_pattern kw cs)"

definition is_false_positive :: "string \<Rightarrow> string list \<Rightarrow> nat \<Rightarrow> nat \<Rightarrow> template_rule \<Rightarrow> bool" where
  "is_false_positive line lines line_no context_window rule =
     (let line_stripped = strip line; line_lower = lower line
      in if starts_with line_stripped ''//'' \<or> starts_with line_stripped ''#'' then True
         else if context_window > 0 \<and> in_comment_context line lines line_no context_window then True
         else if even (count_char (CHR 0x22) line) \<and> even (count_char (CHR 0x27) line) \<and>
                 starts_with line_stripped [CHR 0x22] \<and> ends_with line_stripped [CHR 0x22] \<and>
                 \<not> (contains ''${'' line \<or> contains ''<%='' line \<or> contains ''$!'' line) then True
         else if any_in [''test'', ''mock'', ''stub'', ''fake'', ''dummy'', ''example''] line_lower \<and>
                 contains ''test'' (lower (py_or [rule_file_path rule] [])) then True
         else list_ex (\<lambda>kw. safe_pattern kw line_lower) [''password'', ''secret'', ''key''])"

subsection \<open>The context analyzer\<close>

definition bump :: "bool \<Rightarrow> rat \<Rightarrow> rat \<Rightarrow> rat" where
  \<comment> \<open>\<open>if cond: score += delta\<close>\<close>
  "bump cond delta score = (if cond then score + delta else score)"

definition clamp01 :: "rat \<Rightarrow> rat" where
  \<comment> \<open>\<open>max(0.0, min(1.0, score))\<close>\<close>
  "clamp01 score = max 0 (min 1 score)"

definition input_sources :: "string list" where
  "input_sources = [''request.getparameter'', ''request.get'', ''request.getinputstream'',
     ''request.getreader'', ''request.getattribute'', ''session.getattribute'',
     ''param.'', ''header.'', ''cookie.'']"

definition sanitizer_keywords :: "string list" where
  "sanitizer_keywords = [''escapehtml'', ''htmlutils'', ''stringescapeutils'',
     ''owasp.encoder'', ''sanitize'', ''filter'', ''encode'', ''encodeurl'',
     ''encodeuri'', ''escapexml'', ''escapejavascript'', ''escapejava'',
     ''preparedstatement'', ''parameterized'', ''setstring'', ''setint'',
     ''setparameter'', ''escapelike'', ''quote'', ''canonicalize'']"

definition sanitizer_delta_ctx :: "string list \<Rightarrow> string \<Rightarrow> nat \<Rightarrow> rat" where
  \<comment> \<open>step 8 of \<open>_analyze_context\<close>\<close>
  "sanitizer_delta_ctx context_lines context_text current_pos =
     (let sanitizer_count = count_in sanitizer_keywords context_text
      in if sanitizer_count \<ge> 2 then - 0.4
         else if sanitizer_count \<ge> 1 then
           (let sanitizer_positions =
                  map fst (filter (\<lambda>(i, line). any_in sanitizer_keywords (lower line))
                             (zip [0..<length context_lines] context_lines))
            in case sanitizer_positions of
                 [] \<Rightarrow> - 0.2
               | p # ps \<Rightarrow> if fold min ps p < current_pos then - 0.3 else - 0.2)
         else 0)"

definition analyze_context :: "string list \<Rightarrow> nat \<Rightarrow> nat \<Rightarrow> template_rule \<Rightarrow> rat" where
  "analyze_context lines line_no context_window rule =
     (if context_window \<le> 0 \<or> line_no < 1 \<or> line_no > length lines then 0.5
      else
        (let context_start = line_no - context_window - 1;
             context_end = min (length lines) (line_no + context_window);
             context_lines = slice lines context_start context_end;
             score = 0.5;
             context_text = lower (join '' '' context_lines);
             vt = upper (py_or [vul_type rule] []);
             rule_name = upper (py_or [name rule] []);
             is_jsp_context = list_ex (\<lambda>l. contains ''jsp'' (lower l) \<or> contains ''jspx'' (lower l))
                                (take 5 context_lines);
             score = bump (is_jsp_context \<and> (contains ''XSS'' vt \<or> contains ''INJECTION'' vt)) 0.1 score;
             score =
               (if contains ''SQLI'' vt \<or> contains ''SQL'' rule_name then
                  bump (contains ''stringbuilder'' context_text \<or> contains ''stringbuffer'' context_text) 0.1
                    (bump (contains ''request.getparameter'' context_text \<or>
                           contains ''request.get'' context_text) 0.2
                       (bump (any_in [''select'', ''from'', ''where'', ''insert'', ''update'', ''delete'',
                                       ''executequery'', ''preparedstatement''] context_text) 0.2 score))
                else score);
             score =
               (if contains ''XSS'' vt then
                  bump (any_in [''escapehtml'', ''encode'', ''sanitize'', ''escape''] context_text) (- 0.3)
                    (bump (contains ''request.getparameter'' context_text) 0.2
                       (bump (any_in [''out.print'', ''response.getwriter'', ''document.write'',
                                       ''innerhtml''] context_text) 0.2 score))
                else score);
             score =
               (if contains ''PATH_TRAVERSAL'' vt \<or> contains ''FILE'' rule_name then
                  bump (any_in [''canonical'', ''normalize'', ''getcanonical''] context_text) (- 0.3)
                    (bump (contains ''request.getparameter'' context_text) 0.2
                       (bump (any_in [''../'', [CHR ''.'', CHR ''.'', CHR 0x5C], ''getrealpath'', ''file'',
                                       ''filestream''] context_text) 0.2 score))
                else score);
             score =
               (if contains ''RCE'' vt then
                  bump (contains ''request.getparameter'' context_text) 0.2
                    (bump (any_in [''runtime.exec'', ''processbuilder'', ''command'', ''exec'']
                             context_text) 0.3 score)
                else score);
             score =
               (if contains ''UNSERIALIZE'' vt \<or> contains ''DESERIALIZE'' rule_name then
                  bump (contains ''request.getinputstream'' context_text \<or>
                        contains ''request.getreader'' context_text) 0.2
                    (bump (any_in [''readobject'', ''objectinputstream'', ''json.parse'', ''fastjson'']
                             context_text) 0.2 score)
                else score);
             score =
               (if contains ''EL_INJECTION'' vt \<or> contains ''JSP'' rule_name then
                  bump (contains ''out.print'' context_text \<or> contains ''response.getwriter'' context_text) 0.1
                    (bump (any_in [''${'', ''<%='', ''param.'', ''requestscope'', ''sessionScope'']
                             context_text) 0.15 score)
                else score);
             input_count = count_in input_sources context_text;
             score = (if input_count \<ge> 2 then score + 0.15
                      else if input_count \<ge> 1 then score + 0.1 else score);
             score = score + sanitizer_delta_ctx context_lines context_text (line_no - context_start - 1);
             score = bump (any_in [''catch'', ''exception'', ''logger'', ''log.'', ''printstacktrace'']
                             context_text) (- 0.1) score;
             score = bump (((contains ''<%'' context_text \<and> contains ''%>'' context_text) \<or>
                            contains ''<jsp:'' (lower context_text)) \<and>
                           contains ''request.getparameter'' context_text) 0.1 score
         in clamp01 score))"

subsection \<open>The line confidence scorer\<close>

definition dangerous_patterns :: "(string \<times> string list) list" where
  "dangerous_patterns =
     [(''SQLI'', [''executequery'', ''executestatement'', ''preparedstatement'', ''createstatement'',
                  ''executeupdate'', ''executebatch'', ''query'', ''update'', ''jdbctemplate'',
                  ''hibernate'']),
      (''XSS'', [''print'', ''println'', ''write'', ''innerhtml'', ''getwriter'', ''out.print'',
                 ''response.getwriter'', ''document.write'', ''eval'']),
      (''RCE'', [''exec'', ''eval'', ''runtime'', ''processbuilder'', ''getruntime'', ''command'']),
      (''PATH_TRAVERSAL'', [''../'', [CHR ''.'', CHR ''.'', CHR 0x5C], ''filestream'',
                            ''fileoutputstream'', ''filewriter'', ''fileinputstream'', ''filereader'',
                            ''getrealpath'', ''getcanonicalpath'']),
      (''XXE'', [''documentbuilder'', ''saxparser'', ''dom4j'', ''jdom'', ''xpath'', ''xmlreader'']),
      (''DESERIALIZE'', [''readobject'', ''objectinputstream'', ''readresolve'', ''readunsafe'',
                         ''fastjson'', ''jackson'', ''gson'', ''xstream''])]"

definition dangerous_step :: "string \<Rightarrow> string \<Rightarrow> string \<times> string list \<Rightarrow> rat \<Rightarrow> rat" where
  \<comment> \<open>the body of the loop over \<open>dangerous_patterns.items()\<close>\<close>
  "dangerous_step vt line_lower entry score =
     (case entry of (vtype, pats) \<Rightarrow>
        if contains vtype vt then
          (let pattern_count = count_in pats line_lower
           in if pattern_count \<ge> 2 then score + 0.25
              else if pattern_count \<ge> 1 then score + 0.15 else score)
        else score)"

definition input_keywords :: "string list" where
  "input_keywords = [''request'', ''parameter'', ''input'', ''getparameter'', ''getinputstream'',
     ''getattribute'', ''getheader'', ''getcookie'', ''requestparam'', ''pathvariable'',
     ''requestbody'', ''queryparam'', ''bodytomono'', ''getquery'', ''getpathinfo'']"

definition output_keywords :: "string list" where
  "output_keywords = [''response'', ''output'', ''print'', ''write'', ''send'', ''setheader'',
     ''getwriter'', ''sendredirect'', ''forward'', ''render'', ''view'', ''model'']"

definition spring_patterns :: "string list" where
  "spring_patterns = [''@requestmapping'', ''@getmapping'', ''@postmapping'', ''@putmapping'',
     ''@deletemapping'', ''@requestparam'', ''@pathvariable'', ''@requestbody'',
     ''@modelattribute'', ''@valid'', ''@responsebody'', ''@controller'',
     ''@restcontroller'', ''@service'', ''@repository'']"

definition block_delta :: "string list \<Rightarrow> nat \<Rightarrow> rat" where
  \<comment> \<open>steps 5 and 6 of \<open>_calculate_confidence\<close>, with their window of 7 lines\<close>
  "block_delta lines line_no =
     (let context_window = 7
      in if line_no \<ge> context_window \<and> int line_no < int (length lines) - int context_window then
           (let context_start = line_no - context_window;
                context_end = min (length lines) (line_no + context_window + 1);
                context_block_text = lower (join '' '' (slice lines context_start context_end));
                input_count = count_in input_keywords context_block_text;
                output_count = count_in output_keywords context_block_text;
                d1 = (if input_count \<ge> 2 \<and> output_count \<ge> 1 then 0.3
                      else if input_count \<ge> 1 \<and> output_count \<ge> 1 then 0.2
                      else if input_count \<ge> 2 then 0.15
                      else if input_count \<ge> 1 \<or> output_count \<ge> 1 then 0.1 else 0);
                spring_count = count_in spring_patterns context_block_text;
                d2 = (if spring_count \<ge> 2 then 0.1 else if spring_count \<ge> 1 then 0.05 else 0)
            in d1 + d2)
         else 0)"

definition calculate_confidence ::
  "string \<Rightarrow> string list \<Rightarrow> nat \<Rightarrow> template_rule \<Rightarrow> rat \<Rightarrow> rat" where
  "calculate_confidence line lines line_no rule base_score =
     (if line = [] \<or> lines = [] \<or> line_no < 1 \<or> line_no > length lines then base_score
      else
        (let score = base_score;
             line_lower = lower line;
             vt = upper (py_or [vul_type rule] []);
             keywords_in_line = count_in [''request'', ''getparameter'', ''getinputstream'',
                                          ''response'', ''execute''] line_lower;
             score = bump (keywords_in_line \<ge> 2) 0.1 score;
             score = bump (count_char (CHR ''('') line > 3 \<or> count_char (CHR ''.'') line > 5) 0.05 score;
             score = bump ((CHR ''+'' \<in> set line \<or> contains ''concat'' line_lower \<or>
                            contains ''append'' line_lower) \<and> contains ''SQL'' vt) 0.1 score;
             score = fold (dangerous_step vt line_lower) dangerous_patterns score;
             score = score + block_delta lines line_no;
             score = bump (contains ''return'' line_lower \<and>
                           any_in [''request'', ''parameter'', ''input'', ''getparameter''] line_lower)
                       0.1 score;
             score = bump (any_in [''list'', ''array'', ''map'', ''set'', ''collection''] line_lower \<and>
                           (contains ''getparameter'' line_lower \<or> contains ''request'' line_lower))
                       0.05 score;
             score = bump (any_in [''tostring'', ''valueof'', ''parse'', ''convert''] line_lower \<and>
                           (contains ''request'' line_lower \<or> contains ''parameter'' line_lower))
                       0.05 score
         in clamp01 score))"

subsection \<open>Rules, files and findings\<close>

text \<open>
  The keys of the rule bundle that the template scanner reads, the files that \<open>os.walk\<close>
  yields (directory by directory), and the environment: the regular-expression engine
  (\<open>re_search pat line\<close> is \<open>re.compile(pat, re.I | re.S).search(line)\<close>, \<open>compile_ok\<close>
  says that a pattern passes \<open>resource_limiter.check_regex\<close> and compiles) and the stop
  predicate, one answer per poll. Of a finding, the fields that do not depend on the
  scan (\<open>sink_desc\<close>, \<open>chain_count\<close>, the empty evidence lists, \<open>file_path_abs\<close>) are
  left out; \<open>call_chains\<close> is kept as the file and the line range it is printed from.
  The progress callback does not change the scanner's state.
\<close>

record scan_rules =
  template_rules :: "template_rule list"
  lite_fast :: bool
  apply_must_substrings :: bool
  ignore_skip_dirs :: bool
  include_exts :: "string list"

record src_file =
  fname :: string
  rel :: string
  fsize :: "nat option"
  content :: "string list option"

record environment =
  re_search :: "string \<Rightarrow> string \<Rightarrow> bool"
  compile_ok :: "string \<Rightarrow> bool"
  should_stop :: "nat \<Rightarrow> bool"

record finding =
  f_vul_type :: "string option"
  f_severity :: string
  f_sink :: "string option"
  f_call_chain :: "string \<times> nat \<times> nat"
  f_confidence :: rat
  f_file_path :: string
  f_group_lines :: "nat list"
  f_scan_mode :: string

record scan_state =
  findings :: "finding list"
  partial_results :: "finding list"
  seen :: "(string option \<times> string \<times> nat) set"
  per_file_rule_count :: "(string option \<times> string) \<rightharpoonup> nat"
  file_vul_type_seen :: "(string \<times> string option) set"
  regex_evals :: nat
  polls :: nat

definition MAX_FINDINGS :: nat where
  "MAX_FINDINGS = 999999"

definition MAX_FILE_BYTES :: nat where
  "MAX_FILE_BYTES = 50 * 1024 * 1024"

definition MAX_REGEX_EVALS_PER_FILE :: "scan_rules \<Rightarrow> nat" where
  "MAX_REGEX_EVALS_PER_FILE cfg = (if lite_fast cfg then 500 else 2000)"

definition PER_FILE_RULE_CAP :: "scan_rules \<Rightarrow> nat" where
  "PER_FILE_RULE_CAP cfg = (if lite_fast cfg then 1 else 5)"

definition CONTEXT_WINDOW :: nat where
  "CONTEXT_WINDOW = 15"

definition BASE_HINTS :: "string list" where
  "BASE_HINTS =
     [''request.getparameter'', ''out.print'', ''out.println'', ''${'', ''<%='', ''document.write'',
      ''response.setheader'', ''response.addheader'', ''pagecontext.getout'', ''sendredirect'',
      ''http-equiv='' @ [CHR 0x22] @ ''refresh'' @ [CHR 0x22], ''location.href'',
      ''<#'', ''#include'', ''#import'', ''#assign'', ''#if'', ''#list'', ''${'',
      ''$!'', ''#set'', ''#parse'', ''#foreach'',
      ''th:'', [CHR ''@'', CHR ''{'']]"

definition rule_vul_type :: "template_rule \<Rightarrow> string option" where
  \<comment> \<open>\<open>rule.get('vul_type') or rule.get('name')\<close>\<close>
  "rule_vul_type rule =
     (case vul_type rule of
        None \<Rightarrow> name rule
      | Some v \<Rightarrow> if v = [] then name rule else Some v)"

definition count_of :: "scan_state \<Rightarrow> string option \<times> string \<Rightarrow> nat" where
  \<comment> \<open>\<open>per_file_rule_count.get(fr_key, 0)\<close>\<close>
  "count_of st fr_key = (case per_file_rule_count st fr_key of None \<Rightarrow> 0 | Some n \<Rightarrow> n)"

definition py_round2 :: "rat \<Rightarrow> rat" where
  \<comment> \<open>\<open>round(x, 2)\<close>: to the nearest hundredth, ties to the even one\<close>
  "py_round2 x =
     (let y = x * 100; f = \<lfloor>y\<rfloor>; d = y - of_int f
      in of_int (if d < 1 / 2 then f else if d > 1 / 2 then f + 1
                 else if even f then f else f + 1) / 100)"

definition emit :: "finding \<Rightarrow> string option \<times> string \<Rightarrow> scan_state \<Rightarrow> scan_state" where
  \<comment> \<open>what both emission sites do once their checks have passed\<close>
  "emit item fr_key st =
     st\<lparr>per_file_rule_count := (per_file_rule_count st)(fr_key \<mapsto> count_of st fr_key + 1),
        file_vul_type_seen := insert (f_file_path item, f_vul_type item) (file_vul_type_seen st),
        findings := findings st @ [item],
        partial_results := partial_results st @ [item]\<rparr>"

subsection \<open>The block rule \<open>FORM_NO_CSRF\<close>\<close>

definition form_item :: "scan_rules \<Rightarrow> template_rule \<Rightarrow> string \<Rightarrow> nat \<Rightarrow> finding" where
  "form_item cfg rule rel_path line_no =
     \<lparr>f_vul_type = rule_vul_type rule,
      f_severity = py_or [severity rule] ''Medium'',
      f_sink = name rule,
      f_call_chain = (rel_path, line_no, line_no),
      f_confidence = 0.8,
      f_file_path = rel_path,
      f_group_lines = [line_no],
      f_scan_mode = (if lite_fast cfg then ''lite'' else ''full'')\<rparr>"

fun form_no_csrf ::
  "scan_rules \<Rightarrow> template_rule \<Rightarrow> string \<Rightarrow> nat \<Rightarrow> string list \<Rightarrow> scan_state \<Rightarrow> scan_state" where
  \<comment> \<open>the \<open>while i < len(lines)\<close> loop; the list is \<open>lines[i:]\<close>\<close>
  "form_no_csrf cfg rule rel_path i [] st = st"
| "form_no_csrf cfg rule rel_path i (line # rest) st =
     (if contains ''<form'' line \<and> contains (''method='' @ [CHR 0x22] @ ''post'' @ [CHR 0x22]) line then
        (let window = concat (take 50 (line # rest))
         in if \<not> contains (''name='' @ [CHR 0x22] @ ''csrf'' @ [CHR 0x22]) window \<and>
               \<not> contains ''_csrf'' window then
              (let key = (name rule, rel_path, i + 1);
                   fr_key = (name rule, rel_path);
                   file_vul_key = (rel_path, rule_vul_type rule);
                   count = count_of st fr_key
               in if key \<notin> seen st \<and> count < PER_FILE_RULE_CAP cfg \<and>
                     file_vul_key \<notin> file_vul_type_seen st then
                    (let st' = emit (form_item cfg rule rel_path (i + 1)) fr_key
                                 (st\<lparr>seen := insert key (seen st)\<rparr>)
                     in if length (findings st') \<ge> MAX_FINDINGS then st'
                        else form_no_csrf cfg rule rel_path (i + 1) rest st')
                  else form_no_csrf cfg rule rel_path (i + 1) rest st)
            else form_no_csrf cfg rule rel_path (i + 1) rest st)
      else form_no_csrf cfg rule rel_path (i + 1) rest st)"

subsection \<open>Line rules: matching\<close>

datatype verdict = Skip | Stop | Hit rat

definition on_match ::
  "scan_rules \<Rightarrow> string \<Rightarrow> string list \<Rightarrow> template_rule \<Rightarrow> string \<Rightarrow> nat \<Rightarrow> string
     \<Rightarrow> (string option \<times> string \<times> nat) set \<Rightarrow> verdict" where
  \<comment> \<open>what follows a successful \<open>pat.search(line)\<close>: \<open>Skip\<close> is \<open>continue\<close> (next pattern),
      \<open>Stop\<close> is the \<open>break\<close> on a line already seen, \<open>Hit c\<close> records the line with
      confidence \<open>c\<close> and leaves the pattern loop\<close>
  "on_match cfg ext lines rule rel_path i line seen_keys =
     (let line_lower = lower line;
          ms = map lower (must_substrings rule);
          es = map lower (exclude_substrings rule);
          is_jsp = (ext = ''jsp'' \<or> ext = ''jspx'')
      in if apply_must_substrings cfg \<and> es \<noteq> [] \<and> list_ex (\<lambda>x. contains x line_lower) es then Skip
         else if apply_must_substrings cfg \<and> ms \<noteq> [] \<and> \<not> list_all (\<lambda>x. contains x line_lower) ms then Skip
         else if is_false_positive line lines i CONTEXT_WINDOW rule \<and>
                 calculate_confidence line lines i rule (if is_jsp then 0.6 else 0.5) < 0.3 then Skip
         else
           (let context_score = analyze_context lines i CONTEXT_WINDOW rule;
                threshold = (if is_jsp then 0.25 else 0.3)
            in if context_score < threshold then Skip
               else if (name rule, rel_path, i) \<in> seen_keys then Stop
               else
                 (let confidence = calculate_confidence line lines i rule context_score;
                      confidence = (if is_jsp \<and> confidence > 0.5 then min 1 (confidence + 0.05)
                                    else confidence)
                  in Hit confidence)))"

fun scan_pats ::
  "environment \<Rightarrow> scan_rules \<Rightarrow> string \<Rightarrow> string list \<Rightarrow> template_rule \<Rightarrow> string \<Rightarrow> nat \<Rightarrow> string
     \<Rightarrow> string list \<Rightarrow> scan_state \<Rightarrow> (nat \<times> rat) option \<times> scan_state" where
  \<comment> \<open>\<open>for pat in pats\<close> on one line; the result is the entry appended to \<open>hit_lines\<close>\<close>
  "scan_pats env cfg ext lines rule rel_path i line [] st = (None, st)"
| "scan_pats env cfg ext lines rule rel_path i line (pat # pats) st =
     (if should_stop env (polls st) then (None, st\<lparr>polls := Suc (polls st)\<rparr>)
      else
        (let st = st\<lparr>polls := Suc (polls st)\<rparr>
         in if regex_evals st \<ge> MAX_REGEX_EVALS_PER_FILE cfg then (None, st)
            else
              (let st = st\<lparr>regex_evals := regex_evals st + 1\<rparr>
               in if re_search env pat line then
                    (case on_match cfg ext lines rule rel_path i line (seen st) of
                       Skip \<Rightarrow> scan_pats env cfg ext lines rule rel_path i line pats st
                     | Stop \<Rightarrow> (None, st)
                     | Hit confidence \<Rightarrow>
                         (Some (i, confidence), st\<lparr>seen := insert (name rule, rel_path, i) (seen st)\<rparr>))
                  else scan_pats env cfg ext lines rule rel_path i line pats st)))"

definition rule_hints :: "template_rule \<Rightarrow> string list" where
  "rule_hints rule =
     (if force_regex rule then []
      else map lower BASE_HINTS @ concat (map hint_words (patterns rule)))"

fun scan_lines ::
  "environment \<Rightarrow> scan_rules \<Rightarrow> string \<Rightarrow> string list \<Rightarrow> template_rule \<Rightarrow> string \<Rightarrow> string list
     \<Rightarrow> (nat \<times> string) list \<Rightarrow> (nat \<times> rat) list \<Rightarrow> scan_state \<Rightarrow> (nat \<times> rat) list \<times> scan_state" where
  \<comment> \<open>\<open>for i, line in enumerate(lines, start=1)\<close>\<close>
  "scan_lines env cfg ext lines rule rel_path pats [] hit_lines st = (hit_lines, st)"
| "scan_lines env cfg ext lines rule rel_path pats ((i, line) # rest) hit_lines st =
     (if should_stop env (polls st) then (hit_lines, st\<lparr>polls := Suc (polls st)\<rparr>)
      else
        (let st = st\<lparr>polls := Suc (polls st)\<rparr>
         in if length line > 10000 then
              scan_lines env cfg ext lines rule rel_path pats rest hit_lines st
            else if \<not> force_regex rule \<and> rule_hints rule \<noteq> [] \<and>
                    \<not> any_in (rule_hints rule) (lower line) then
              scan_lines env cfg ext lines rule rel_path pats rest hit_lines st
            else if count_of st (name rule, rel_path) \<ge> PER_FILE_RULE_CAP cfg then (hit_lines, st)
            else
              (case scan_pats env cfg ext lines rule rel_path i line pats st of
                 (None, st') \<Rightarrow> scan_lines env cfg ext lines rule rel_path pats rest hit_lines st'
               | (Some h, st') \<Rightarrow>
                   scan_lines env cfg ext lines rule rel_path pats rest (hit_lines @ [h]) st')))"

subsection \<open>Line rules: grouping and emission\<close>

definition conf_at :: "(nat \<times> rat) list \<Rightarrow> nat \<Rightarrow> rat" where
  \<comment> \<open>\<open>max(c for l, c in hit_lines_with_conf if l == lno)\<close>; \<open>lno\<close> is always one of the hit
      lines, so the generator is never empty (0 stands for the \<open>ValueError\<close> of an empty one)\<close>
  "conf_at hit_lines lno =
     (case map snd (filter (\<lambda>(l, c). l = lno) hit_lines) of
        [] \<Rightarrow> 0
      | c # cs \<Rightarrow> fold max cs c)"

lemma conf_at_hit:
  "lno \<in> fst ` set hit_lines \<Longrightarrow> map snd (filter (\<lambda>(l, c). l = lno) hit_lines) \<noteq> []"
  by (auto simp: filter_empty_conv)

fun fold_groups ::
  "(nat \<times> rat) list \<Rightarrow> nat \<Rightarrow> nat \<Rightarrow> rat \<Rightarrow> nat list \<Rightarrow> (nat \<times> nat \<times> rat) list" where
  \<comment> \<open>the loop over \<open>hit_lines_nums[1:]\<close> and the final \<open>groups.append\<close>\<close>
  "fold_groups hit_lines start_ln prev_ln max_conf_in_group [] = [(start_ln, prev_ln, max_conf_in_group)]"
| "fold_groups hit_lines start_ln prev_ln max_conf_in_group (lno # rest) =
     (if lno = prev_ln + 1 then
        fold_groups hit_lines start_ln lno (max max_conf_in_group (conf_at hit_lines lno)) rest
      else
        (start_ln, prev_ln, max_conf_in_group) # fold_groups hit_lines lno lno (conf_at hit_lines lno) rest)"

definition make_groups :: "(nat \<times> rat) list \<Rightarrow> (nat \<times> nat \<times> rat) list" where
  \<comment> \<open>only called with a non-empty \<open>hit_lines\<close>\<close>
  "make_groups hit_lines =
     (case sort (map fst hit_lines) of
        [] \<Rightarrow> []
      | first # rest \<Rightarrow> fold_groups hit_lines first first (conf_at hit_lines first) rest)"

definition demote_severity :: "template_rule \<Rightarrow> rat \<Rightarrow> string" where
  "demote_severity rule group_conf =
     (let sev = py_or [severity rule] ''Medium''
      in if group_conf < 0.5 \<and> sev = ''High'' then ''Medium''
         else if group_conf < 0.3 then ''Low''
         else sev)"

definition group_item ::
  "scan_rules \<Rightarrow> template_rule \<Rightarrow> string \<Rightarrow> nat list \<Rightarrow> nat \<times> nat \<times> rat \<Rightarrow> finding" where
  "group_item cfg rule rel_path hit_lines_nums g =
     (case g of (gs, ge, group_conf) \<Rightarrow>
        \<lparr>f_vul_type = rule_vul_type rule,
         f_severity = demote_severity rule group_conf,
         f_sink = name rule,
         f_call_chain = (rel_path, gs, ge),
         f_confidence = py_round2 group_conf,
         f_file_path = rel_path,
         f_group_lines = filter (\<lambda>lno. gs \<le> lno \<and> lno \<le> ge) hit_lines_nums,
         f_scan_mode = (if lite_fast cfg then ''lite'' else ''full'')\<rparr>)"

fun emit_groups ::
  "scan_rules \<Rightarrow> template_rule \<Rightarrow> string \<Rightarrow> nat list \<Rightarrow> (nat \<times> nat \<times> rat) list \<Rightarrow> scan_state
     \<Rightarrow> scan_state" where
  \<comment> \<open>\<open>for gs, ge, group_conf in groups\<close>\<close>
  "emit_groups cfg rule rel_path hit_lines_nums [] st = st"
| "emit_groups cfg rule rel_path hit_lines_nums (g # groups) st =
     (let fr_key = (name rule, rel_path);
          count = count_of st fr_key
      in if count \<ge> PER_FILE_RULE_CAP cfg then st
         else if (rel_path, rule_vul_type rule) \<in> file_vul_type_seen st then st
         else
           (let st' = emit (group_item cfg rule rel_path hit_lines_nums g) fr_key st
            in if length (findings st') \<ge> MAX_FINDINGS then st'
               else emit_groups cfg rule rel_path hit_lines_nums groups st'))"

subsection \<open>Rules, files and directories\<close>

definition lstrip_dots :: "string \<Rightarrow> string" where
  \<comment> \<open>\<open>e.lstrip('.')\<close>\<close>
  "lstrip_dots e = dropWhile (\<lambda>c. c = CHR ''.'') e"

definition rule_exts :: "scan_rules \<Rightarrow> template_rule \<Rightarrow> string list" where
  "rule_exts cfg r =
     (let include = map (\<lambda>e. lstrip_dots (lower e)) (include_exts cfg);
          exts = map (\<lambda>e. lstrip_dots (lower e)) (file_exts r)
      in if include \<noteq> [] then filter (\<lambda>e. e \<in> set include) exts else exts)"

definition ext_map_get :: "scan_rules \<Rightarrow> string \<Rightarrow> template_rule list" where
  \<comment> \<open>\<open>ext_map.get(ext, [])\<close>: a rule stands once for each time it lists the extension\<close>
  "ext_map_get cfg ext =
     concat (map (\<lambda>r. map (\<lambda>_. r) (filter (\<lambda>e. e = ext) (rule_exts cfg r))) (template_rules cfg))"

definition java_related_exts :: "string list" where
  "java_related_exts = [''java'', ''jsp'', ''jspx'', ''class'']"

definition file_ext :: "string \<Rightarrow> string" where
  \<comment> \<open>\<open>file.split('.')[-1].lower() if '.' in file else ''\<close>\<close>
  "file_ext file = (if CHR ''.'' \<in> set file then lower (last (str_split (CHR ''.'') file)) else [])"

definition compiled :: "environment \<Rightarrow> template_rule \<Rightarrow> string list" where
  \<comment> \<open>\<open>compiled_cache[id(rule)]\<close>: the patterns that pass the check and compile\<close>
  "compiled env rule = filter (compile_ok env) (patterns rule)"

definition check_file :: "src_file \<Rightarrow> bool" where
  \<comment> \<open>\<open>resource_limiter.check_file\<close>: at most 100 MiB and 500000 lines, and readable\<close>
  "check_file f =
     ((case fsize f of None \<Rightarrow> False | Some n \<Rightarrow> n \<le> 100 * 1024 * 1024) \<and>
      (case content f of None \<Rightarrow> False | Some ls \<Rightarrow> length ls \<le> 500000))"

definition file_lines :: "src_file \<Rightarrow> string list option" where
  \<comment> \<open>the lines to scan, or \<open>None\<close> where the file is skipped\<close>
  "file_lines f =
     (if \<not> check_file f then None
      else if (case fsize f of None \<Rightarrow> False | Some n \<Rightarrow> n > MAX_FILE_BYTES) then None
      else content f)"

definition scan_rule ::
  "environment \<Rightarrow> scan_rules \<Rightarrow> string \<Rightarrow> string list \<Rightarrow> string \<Rightarrow> template_rule \<Rightarrow> scan_state
     \<Rightarrow> scan_state" where
  \<comment> \<open>an ordinary rule on one file: the line pass, then grouping and emission\<close>
  "scan_rule env cfg ext lines rel_path rule st =
     (case scan_lines env cfg ext lines rule rel_path (compiled env rule)
             (zip [1..<Suc (length lines)] lines) [] st of
        (hit_lines, st') \<Rightarrow>
          if hit_lines \<noteq> [] then
            emit_groups cfg rule rel_path (sort (map fst hit_lines)) (make_groups hit_lines) st'
          else st')"

fun scan_rules_loop ::
  "environment \<Rightarrow> scan_rules \<Rightarrow> string \<Rightarrow> string list \<Rightarrow> string \<Rightarrow> template_rule list \<Rightarrow> scan_state
     \<Rightarrow> scan_state" where
  \<comment> \<open>\<open>for rule in rules_to_check\<close>\<close>
  "scan_rules_loop env cfg ext lines rel_path [] st = st"
| "scan_rules_loop env cfg ext lines rel_path (rule # rules) st =
     (if upper (py_or [name rule] []) = ''FORM_NO_CSRF'' then
        (let st' = form_no_csrf cfg rule rel_path 0 lines st
         in if length (findings st') \<ge> MAX_FINDINGS then st'
            else scan_rules_loop env cfg ext lines rel_path rules st')
      else scan_rules_loop env cfg ext lines rel_path rules
             (scan_rule env cfg ext lines rel_path rule st))"

fun scan_files :: "environment \<Rightarrow> scan_rules \<Rightarrow> src_file list \<Rightarrow> scan_state \<Rightarrow> scan_state" where
  \<comment> \<open>\<open>for file in files\<close>, the files of one directory\<close>
  "scan_files env cfg [] st = st"
| "scan_files env cfg (f # fs) st =
     (let ext = file_ext (fname f)
      in if ext_map_get cfg ext = [] \<and> ext \<notin> set java_related_exts then scan_files env cfg fs st
         else
           (case file_lines f of
              None \<Rightarrow> scan_files env cfg fs st
            | Some lines \<Rightarrow>
                (let rules_to_check = (if ext \<in> set java_related_exts then template_rules cfg
                                       else ext_map_get cfg ext);
                     st' = scan_rules_loop env cfg ext lines (rel f) rules_to_check
                             (st\<lparr>regex_evals := 0\<rparr>)
                 in if length (findings st') \<ge> MAX_FINDINGS then st'
                    else scan_files env cfg fs st')))"

definition SKIP_DIRS :: "scan_rules \<Rightarrow> string list" where
  "SKIP_DIRS cfg =
     (if ignore_skip_dirs cfg then []
      else [''/target/'', ''/build/'', ''/dist/'', ''/out/'', ''/node_modules/''])"

definition norm_root :: "string \<Rightarrow> string" where
  \<comment> \<open>\<open>root.replace('\\\\', '/').replace('\\', '/')\<close>\<close>
  "norm_root root_dir =
     str_replace [CHR 0x5C] ''/'' (str_replace [CHR 0x5C, CHR 0x5C] ''/'' root_dir)"

fun scan_dirs ::
  "environment \<Rightarrow> scan_rules \<Rightarrow> (string \<times> src_file list) list \<Rightarrow> scan_state \<Rightarrow> scan_state" where
  \<comment> \<open>\<open>for root, _, files in os.walk(self.project_path)\<close>\<close>
  "scan_dirs env cfg [] st = st"
| "scan_dirs env cfg ((root_dir, files) # dirs) st =
     (if any_in (SKIP_DIRS cfg) (norm_root root_dir) then scan_dirs env cfg dirs st
      else scan_dirs env cfg dirs (scan_files env cfg files st))"

definition initial_state :: "finding list \<Rightarrow> scan_state" where
  "initial_state partial =
     \<lparr>findings = [], partial_results = partial, seen = {}, per_file_rule_count = Map.empty,
      file_vul_type_seen = {}, regex_evals = 0, polls = 0\<rparr>"

definition scan_template_files ::
  "environment \<Rightarrow> scan_rules \<Rightarrow> (string \<times> src_file list) list \<Rightarrow> finding list \<Rightarrow> scan_state" where
  \<comment> \<open>\<open>_scan_template_files\<close>: \<open>findings\<close> of the result is what it returns,
      \<open>partial_results\<close> is \<open>self.partial_results\<close> after the call\<close>
  "scan_template_files env cfg walk partial =
     (if template_rules cfg = [] then initial_state partial
      else scan_dirs env cfg walk (initial_state partial))"

subsection \<open>Example projects\<close>

definition literal_search :: "string \<Rightarrow> string \<Rightarrow> bool" where
  \<comment> \<open>\<open>re.search\<close> with \<open>re.I\<close> for a pattern without special characters\<close>
  "literal_search pat line = contains (lower pat) (lower line)"

definition ex_env :: "(nat \<Rightarrow> bool) \<Rightarrow> environment" where
  "ex_env stop = \<lparr>re_search = literal_search, compile_ok = (\<lambda>_. True), should_stop = stop\<rparr>"

definition ex_line_rule :: "string \<Rightarrow> string \<Rightarrow> string \<Rightarrow> template_rule" where
  "ex_line_rule rule_name vt pat =
     \<lparr>name = Some rule_name, vul_type = Some vt, desc = None, severity = Some ''High'',
      file_exts = [''java'', ''jsp''], patterns = [pat], must_substrings = [],
      exclude_substrings = [], force_regex = False, rule_file_path = None\<rparr>"

definition ex_cfg :: "template_rule list \<Rightarrow> scan_rules" where
  "ex_cfg rs = \<lparr>template_rules = rs, lite_fast = False, apply_must_substrings = False,
                 ignore_skip_dirs = False, include_exts = []\<rparr>"

definition ex_file :: "string \<Rightarrow> string list \<Rightarrow> src_file" where
  "ex_file file ls = \<lparr>fname = file, rel = file, fsize = Some (length (concat ls)), content = Some ls\<rparr>"

definition ex_comment_lines :: "string list" where
  "ex_comment_lines =
     [''// runtime.getRuntime().exec(userCmd)'' @ [CHR 0x0A],
      ''// sqlStmt.executeQuery(userInput)'' @ [CHR 0x0A]]"

definition ex_comment_rules :: "template_rule list" where
  "ex_comment_rules =
     [ex_line_rule ''RUNTIME_EXEC'' ''RCE'' ''getRuntime'',
      ex_line_rule ''JDBC_EXECUTE_QUERY'' ''SQLI'' ''executeQuery'']"



definition ex_form_rule :: template_rule where
  "ex_form_rule =
     \<lparr>name = Some ''FORM_NO_CSRF'', vul_type = Some ''CSRF'', desc = None, severity = Some ''Medium'',
      file_exts = [''jsp''], patterns = [''<form''], must_substrings = [],
      exclude_substrings = [], force_regex = False, rule_file_path = None\<rparr>"

definition ex_form_lines :: "string list" where
  "ex_form_lines = [''<form method='' @ [CHR 0x22] @ ''post'' @ [CHR 0x22] @ ''>'' @ [CHR 0x0A],
                    ''</form>'' @ [CHR 0x0A]]"


definition ex_low_rule :: template_rule where
  "ex_low_rule = ex_line_rule ''JSP_TAG'' ''MISC'' ''danger''"

definition ex_low_lines :: "string list" where
  "ex_low_lines = [''danger ${x} quote filter'' @ [CHR 0x0A]]"



subsection \<open>What every scan preserves\<close>

definition finding_keys :: "finding \<Rightarrow> (string option \<times> string \<times> nat) list" where
  \<comment> \<open>the line-level keys \<open>(rule_name, relpath, line)\<close> of a finding\<close>
  "finding_keys f = map (\<lambda>l. (f_sink f, f_file_path f, l)) (f_group_lines f)"

definition fkeys :: "scan_state \<Rightarrow> (string option \<times> string \<times> nat) set" where
  "fkeys st = (\<Union>f \<in> set (findings st). set (finding_keys f))"

definition dedup_inv :: "scan_rules \<Rightarrow> scan_state \<Rightarrow> bool" where
  "dedup_inv cfg st \<longleftrightarrow>
     distinct (map (\<lambda>f. (f_file_path f, f_vul_type f)) (findings st)) \<and>
     (\<lambda>f. (f_file_path f, f_vul_type f)) ` set (findings st) \<subseteq> file_vul_type_seen st \<and>
     distinct (concat (map finding_keys (findings st))) \<and>
     fkeys st \<subseteq> seen st \<and>
     list_all (\<lambda>f. f_group_lines f \<noteq> []) (findings st) \<and>
     (\<forall>n r. length (filter (\<lambda>f. f_sink f = n \<and> f_file_path f = r) (findings st))
              \<le> count_of st (n, r)) \<and>
     (\<forall>n r. count_of st (n, r) \<le> PER_FILE_RULE_CAP cfg)"

lemma dedup_inv_initial: "dedup_inv cfg (initial_state partial)"
  by (simp add: dedup_inv_def initial_state_def fkeys_def count_of_def)

lemma count_of_emit:
  "count_of (emit item fr_key st) k = (if k = fr_key then count_of st fr_key + 1 else count_of st k)"
  by (simp add: count_of_def emit_def)

lemma dedup_inv_emit:
  assumes inv: "dedup_inv cfg st"
    and fv: "(f_file_path item, f_vul_type item) \<notin> file_vul_type_seen st"
    and cap: "count_of st fr_key < PER_FILE_RULE_CAP cfg"
    and key: "fr_key = (f_sink item, f_file_path item)"
    and dk: "distinct (finding_keys item)"
    and sk: "set (finding_keys item) \<subseteq> seen st"
    and nk: "set (finding_keys item) \<inter> fkeys st = {}"
    and ne: "f_group_lines item \<noteq> []"
  shows "dedup_inv cfg (emit item fr_key st)"
proof -
  have f: "findings (emit item fr_key st) = findings st @ [item]"
    and s: "seen (emit item fr_key st) = seen st"
    and v: "file_vul_type_seen (emit item fr_key st) =
            insert (f_file_path item, f_vul_type item) (file_vul_type_seen st)"
    by (simp_all add: emit_def)
  have 1: "distinct (map (\<lambda>f. (f_file_path f, f_vul_type f)) (findings st @ [item]))"
    using inv fv by (auto simp: dedup_inv_def)
  have 2: "(\<lambda>f. (f_file_path f, f_vul_type f)) ` set (findings st @ [item])
           \<subseteq> insert (f_file_path item, f_vul_type item) (file_vul_type_seen st)"
    using inv by (auto simp: dedup_inv_def)
  have 3: "distinct (concat (map finding_keys (findings st @ [item])))"
    using inv dk nk by (auto simp: dedup_inv_def fkeys_def)
  have 4: "fkeys (emit item fr_key st) \<subseteq> seen st"
    using inv sk by (auto simp: dedup_inv_def fkeys_def f)
  have 5: "list_all (\<lambda>f. f_group_lines f \<noteq> []) (findings st @ [item])"
    using inv ne by (simp add: dedup_inv_def)
  from inv have cnt: "length (filter (\<lambda>f. f_sink f = n \<and> f_file_path f = r) (findings st))
                      \<le> count_of st (n, r)"
    and bound: "count_of st (n, r) \<le> PER_FILE_RULE_CAP cfg" for n r
    by (simp_all add: dedup_inv_def)
  have 6: "length (filter (\<lambda>f. f_sink f = n \<and> f_file_path f = r) (findings st @ [item]))
           \<le> count_of (emit item fr_key st) (n, r)" for n r
    using cnt [of n r] key by (auto simp: count_of_emit)
  have 7: "count_of (emit item fr_key st) (n, r) \<le> PER_FILE_RULE_CAP cfg" for n r
    using bound [of n r] cap by (auto simp: count_of_emit)
  show ?thesis
    unfolding dedup_inv_def f s v using 1 2 3 4 5 6 7 by blast
qed

lemma fkeys_seen [simp]: "fkeys (st\<lparr>seen := S\<rparr>) = fkeys st"
  by (simp add: fkeys_def)

lemma fkeys_polls [simp]: "fkeys (st\<lparr>polls := n\<rparr>) = fkeys st"
  by (simp add: fkeys_def)

lemma fkeys_regex_evals [simp]: "fkeys (st\<lparr>regex_evals := n\<rparr>) = fkeys st"
  by (simp add: fkeys_def)

lemma dedup_inv_seen:
  "dedup_inv cfg st \<Longrightarrow> seen st \<subseteq> S \<Longrightarrow> dedup_inv cfg (st\<lparr>seen := S\<rparr>)"
  by (auto simp: dedup_inv_def fkeys_def count_of_def)

lemma dedup_inv_regex_evals:
  "dedup_inv cfg st \<Longrightarrow> dedup_inv cfg (st\<lparr>regex_evals := n\<rparr>)"
  by (auto simp: dedup_inv_def fkeys_def count_of_def)

lemma form_no_csrf_inv:
  "dedup_inv cfg st \<Longrightarrow> dedup_inv cfg (form_no_csrf cfg rule rel_path i lines st)"
proof (induction cfg rule rel_path i lines st rule: form_no_csrf.induct)
  case (1 cfg rule rel_path i st)
  then show ?case by simp
next
  case (2 cfg rule rel_path i line rest st)
  let ?key = "(name rule, rel_path, i + 1)"
  let ?st1 = "st\<lparr>seen := insert ?key (seen st)\<rparr>"
  let ?item = "form_item cfg rule rel_path (i + 1)"
  let ?st' = "emit ?item (name rule, rel_path) ?st1"
  have em: "dedup_inv cfg ?st'"
    if g: "?key \<notin> seen st" "count_of st (name rule, rel_path) < PER_FILE_RULE_CAP cfg"
      "(rel_path, rule_vul_type rule) \<notin> file_vul_type_seen st"
  proof (rule dedup_inv_emit)
    show "dedup_inv cfg ?st1" using "2.prems" by (intro dedup_inv_seen) auto
    show "(f_file_path ?item, f_vul_type ?item) \<notin> file_vul_type_seen ?st1"
      using g by (simp add: form_item_def)
    show "count_of ?st1 (name rule, rel_path) < PER_FILE_RULE_CAP cfg"
      using g by (simp add: count_of_def)
    show "(name rule, rel_path) = (f_sink ?item, f_file_path ?item)"
      by (simp add: form_item_def)
    show "distinct (finding_keys ?item)" by (simp add: finding_keys_def form_item_def)
    show "set (finding_keys ?item) \<subseteq> seen ?st1"
      by (simp add: finding_keys_def form_item_def)
    have "fkeys st \<subseteq> seen st" using "2.prems" by (simp add: dedup_inv_def)
    with g(1) show "set (finding_keys ?item) \<inter> fkeys ?st1 = {}"
      by (auto simp: finding_keys_def form_item_def)
    show "f_group_lines ?item \<noteq> []" by (simp add: form_item_def)
  qed
  show ?case
    using "2.prems" "2.IH" em
    by (auto simp: Let_def simp del: emit_def)
qed

lemma on_match_Hit:
  "on_match cfg ext lines rule rel_path i line seen_keys = Hit c \<Longrightarrow>
   (name rule, rel_path, i) \<notin> seen_keys"
  by (simp add: on_match_def Let_def split: if_splits)

definition same_emitted :: "scan_state \<Rightarrow> scan_state \<Rightarrow> bool" where
  \<comment> \<open>nothing was emitted between the two states, and no line key was forgotten\<close>
  "same_emitted st st' \<longleftrightarrow>
     findings st' = findings st \<and> partial_results st' = partial_results st \<and>
     per_file_rule_count st' = per_file_rule_count st \<and>
     file_vul_type_seen st' = file_vul_type_seen st \<and> seen st \<subseteq> seen st'"

lemma same_emitted_refl [simp]: "same_emitted st st"
  by (simp add: same_emitted_def)

lemma same_emitted_trans: "same_emitted a b \<Longrightarrow> same_emitted b c \<Longrightarrow> same_emitted a c"
  by (auto simp: same_emitted_def)

lemma same_emitted_polls [simp]: "same_emitted st (st\<lparr>polls := n\<rparr>)"
  by (simp add: same_emitted_def)

lemma same_emitted_inv: "same_emitted st st' \<Longrightarrow> dedup_inv cfg st \<Longrightarrow> dedup_inv cfg st'"
  by (auto simp: same_emitted_def dedup_inv_def fkeys_def count_of_def)

lemma same_emitted_fkeys: "same_emitted st st' \<Longrightarrow> fkeys st' = fkeys st"
  by (simp add: same_emitted_def fkeys_def)

lemma same_emitted_count: "same_emitted st st' \<Longrightarrow> count_of st' k = count_of st k"
  by (simp add: same_emitted_def count_of_def)

lemma scan_pats_effect:
  "scan_pats env cfg ext lines rule rel_path i line pats st = (res, st') \<Longrightarrow>
   same_emitted st st' \<and>
   (case res of
      None \<Rightarrow> seen st' = seen st
    | Some h \<Rightarrow> fst h = i \<and> (name rule, rel_path, i) \<notin> seen st \<and>
                seen st' = insert (name rule, rel_path, i) (seen st))"
proof (induction pats arbitrary: st)
  case Nil
  then show ?case by auto
next
  case (Cons pat pats)
  let ?st2 = "st\<lparr>polls := Suc (polls st), regex_evals := Suc (regex_evals st)\<rparr>"
  have step: "same_emitted st ?st2" "seen ?st2 = seen st"
    by (simp_all add: same_emitted_def)
  show ?case
  proof (cases "\<not> should_stop env (polls st) \<and>
                 \<not> regex_evals st \<ge> MAX_REGEX_EVALS_PER_FILE cfg")
    case False
    with Cons.prems show ?thesis by (auto simp: Let_def split: if_splits)
  next
    case go: True
    show ?thesis
    proof (cases "re_search env pat line")
      case False
      with go Cons.prems have "scan_pats env cfg ext lines rule rel_path i line pats ?st2 = (res, st')"
        by (simp add: Let_def)
      from Cons.IH [OF this] step show ?thesis
        by (auto intro: same_emitted_trans split: option.splits)
    next
      case True
      show ?thesis
      proof (cases "on_match cfg ext lines rule rel_path i line (seen st)")
        case Skip
        with go True Cons.prems
        have "scan_pats env cfg ext lines rule rel_path i line pats ?st2 = (res, st')"
          by (simp add: Let_def)
        from Cons.IH [OF this] step show ?thesis
          by (auto intro: same_emitted_trans split: option.splits)
      next
        case Stop
        with go True Cons.prems show ?thesis
          by (auto simp: Let_def same_emitted_def)
      next
        case (Hit c)
        with go True Cons.prems on_match_Hit [OF Hit] show ?thesis
          by (auto simp: Let_def same_emitted_def)
      qed
    qed
  qed
qed

lemma scan_lines_effect:
  "scan_lines env cfg ext lines rule rel_path pats entries hits st = (hits', st') \<Longrightarrow>
   distinct (map fst hits) \<Longrightarrow>
   (\<forall>h \<in> set hits. (name rule, rel_path, fst h) \<in> seen st \<and> (name rule, rel_path, fst h) \<notin> K) \<Longrightarrow>
   K \<subseteq> seen st \<Longrightarrow>
   same_emitted st st' \<and> distinct (map fst hits') \<and>
   (\<forall>h \<in> set hits'. (name rule, rel_path, fst h) \<in> seen st' \<and> (name rule, rel_path, fst h) \<notin> K)"
proof (induction entries arbitrary: hits st)
  case Nil
  then show ?case by auto
next
  case (Cons e entries)
  obtain i line where e: "e = (i, line)" by (cases e)
  let ?st1 = "st\<lparr>polls := Suc (polls st)\<rparr>"
  have keep: "\<forall>h \<in> set hits. (name rule, rel_path, fst h) \<in> seen ?st1 \<and>
                (name rule, rel_path, fst h) \<notin> K" "K \<subseteq> seen ?st1"
    using Cons.prems by simp_all
  consider (stop) "hits' = hits" "same_emitted st st'" "seen st' = seen st"
    | (skip) "scan_lines env cfg ext lines rule rel_path pats entries hits ?st1 = (hits', st')"
    | (pats) res st2 where
        "scan_pats env cfg ext lines rule rel_path i line pats ?st1 = (res, st2)"
        "scan_lines env cfg ext lines rule rel_path pats entries
           (case res of None \<Rightarrow> hits | Some h \<Rightarrow> hits @ [h]) st2 = (hits', st')"
    using Cons.prems(1) unfolding e
    by (auto simp: Let_def same_emitted_def split: if_splits prod.splits option.splits)
  then show ?case
  proof cases
    case stop
    with Cons.prems show ?thesis by auto
  next
    case skip
    from Cons.IH [OF skip Cons.prems(2) keep] show ?thesis
      by (auto intro: same_emitted_trans [OF same_emitted_polls])
  next
    case pats
    note pe = scan_pats_effect [OF pats(1)]
    have se: "same_emitted st st2"
      using pe by (auto intro: same_emitted_trans [OF same_emitted_polls])
    have sub: "seen st \<subseteq> seen st2" using se by (simp add: same_emitted_def)
    let ?hits2 = "case res of None \<Rightarrow> hits | Some h \<Rightarrow> hits @ [h]"
    have d2: "distinct (map fst ?hits2)"
      using Cons.prems(2,3) pe by (auto split: option.splits)
    have k2: "\<forall>h \<in> set ?hits2. (name rule, rel_path, fst h) \<in> seen st2 \<and>
                (name rule, rel_path, fst h) \<notin> K"
      using Cons.prems(3,4) pe sub by (auto split: option.splits)
    have K2: "K \<subseteq> seen st2" using Cons.prems(4) sub by auto
    from Cons.IH [OF pats(2) d2 k2 K2] se show ?thesis
      by (auto intro: same_emitted_trans)
  qed
qed

lemma fold_groups_shape:
  "start_ln \<le> prev_ln \<Longrightarrow> g \<in> set (fold_groups hits start_ln prev_ln m rest) \<Longrightarrow>
   fst g \<le> fst (snd g) \<and> fst g \<in> insert start_ln (set rest)"
  by (induction hits start_ln prev_ln m rest rule: fold_groups.induct)
     (auto split: if_splits)

lemma make_groups_shape:
  "g \<in> set (make_groups hits) \<Longrightarrow> fst g \<le> fst (snd g) \<and> fst g \<in> fst ` set hits"
proof -
  assume g: "g \<in> set (make_groups hits)"
  then obtain first rest where s: "sort (map fst hits) = first # rest"
    by (cases "sort (map fst hits)") (auto simp: make_groups_def)
  with g have "g \<in> set (fold_groups hits first first (conf_at hits first) rest)"
    by (simp add: make_groups_def)
  from fold_groups_shape [OF order_refl this]
  have "fst g \<le> fst (snd g)" "fst g \<in> set (sort (map fst hits))"
    unfolding s by auto
  then show ?thesis by simp
qed

lemma emit_groups_stop:
  "(rel_path, rule_vul_type rule) \<in> file_vul_type_seen st \<Longrightarrow>
   emit_groups cfg rule rel_path nums groups st = st"
  by (cases groups) (simp_all add: Let_def)

lemma emit_groups_cases:
  "emit_groups cfg rule rel_path nums groups st = st \<or>
   (\<exists>g \<in> set groups.
      count_of st (name rule, rel_path) < PER_FILE_RULE_CAP cfg \<and>
      (rel_path, rule_vul_type rule) \<notin> file_vul_type_seen st \<and>
      emit_groups cfg rule rel_path nums groups st
        = emit (group_item cfg rule rel_path nums g) (name rule, rel_path) st)"
proof (cases groups)
  case Nil
  then show ?thesis by simp
next
  case (Cons g gs)
  let ?st' = "emit (group_item cfg rule rel_path nums g) (name rule, rel_path) st"
  have "(rel_path, rule_vul_type rule) \<in> file_vul_type_seen ?st'"
    by (cases g) (simp add: emit_def group_item_def)
  then have rec: "emit_groups cfg rule rel_path nums gs ?st' = ?st'"
    by (rule emit_groups_stop)
  show ?thesis
  proof (cases "count_of st (name rule, rel_path) \<ge> PER_FILE_RULE_CAP cfg \<or>
                (rel_path, rule_vul_type rule) \<in> file_vul_type_seen st")
    case True
    then have "emit_groups cfg rule rel_path nums (g # gs) st = st"
      by (auto simp: Let_def)
    then show ?thesis unfolding Cons by blast
  next
    case False
    then have "emit_groups cfg rule rel_path nums (g # gs) st = ?st'"
      using rec by (simp add: Let_def)
    with False show ?thesis unfolding Cons by auto
  qed
qed

lemma scan_rule_inv:
  assumes "dedup_inv cfg st"
  shows "dedup_inv cfg (scan_rule env cfg ext lines rel_path rule st)"
proof -
  obtain hits st1 where sl: "scan_lines env cfg ext lines rule rel_path (compiled env rule)
      (zip [1..<Suc (length lines)] lines) [] st = (hits, st1)"
    by (cases "scan_lines env cfg ext lines rule rel_path (compiled env rule)
      (zip [1..<Suc (length lines)] lines) [] st")
  have K: "fkeys st \<subseteq> seen st" using assms by (simp add: dedup_inv_def)
  from scan_lines_effect [OF sl _ _ K]
  have se: "same_emitted st st1" and dh: "distinct (map fst hits)"
    and kh: "\<forall>h \<in> set hits. (name rule, rel_path, fst h) \<in> seen st1 \<and>
               (name rule, rel_path, fst h) \<notin> fkeys st"
    by simp_all
  have inv1: "dedup_inv cfg st1" using se assms by (rule same_emitted_inv)
  let ?nums = "sort (map fst hits)"
  let ?res = "emit_groups cfg rule rel_path ?nums (make_groups hits) st1"
  have "dedup_inv cfg ?res"
    using emit_groups_cases [of cfg rule rel_path ?nums "make_groups hits" st1]
  proof (elim disjE bexE conjE)
    assume "?res = st1"
    with inv1 show ?thesis by simp
  next
    fix g
    assume g: "g \<in> set (make_groups hits)"
      and cap: "count_of st1 (name rule, rel_path) < PER_FILE_RULE_CAP cfg"
      and fv: "(rel_path, rule_vul_type rule) \<notin> file_vul_type_seen st1"
      and eq: "?res = emit (group_item cfg rule rel_path ?nums g) (name rule, rel_path) st1"
    obtain gs ge gc where gg: "g = (gs, ge, gc)" by (cases g)
    let ?item = "group_item cfg rule rel_path ?nums g"
    have lines: "f_group_lines ?item = filter (\<lambda>l. gs \<le> l \<and> l \<le> ge) ?nums"
      and sink: "f_sink ?item = name rule" and path: "f_file_path ?item = rel_path"
      and vt: "f_vul_type ?item = rule_vul_type rule"
      by (simp_all add: gg group_item_def)
    from make_groups_shape [OF g] gg have shape: "gs \<le> ge" "gs \<in> fst ` set hits" by simp_all
    have "dedup_inv cfg (emit ?item (name rule, rel_path) st1)"
    proof (rule dedup_inv_emit [OF inv1])
      show "(f_file_path ?item, f_vul_type ?item) \<notin> file_vul_type_seen st1"
        using fv by (simp add: path vt)
      show "count_of st1 (name rule, rel_path) < PER_FILE_RULE_CAP cfg" by (rule cap)
      show "(name rule, rel_path) = (f_sink ?item, f_file_path ?item)" by (simp add: sink path)
      show "distinct (finding_keys ?item)"
        using dh by (simp add: finding_keys_def lines distinct_map inj_on_def)
      show "set (finding_keys ?item) \<subseteq> seen st1"
        using kh by (auto simp: finding_keys_def lines sink path)
      show "set (finding_keys ?item) \<inter> fkeys st1 = {}"
        using kh same_emitted_fkeys [OF se] by (auto simp: finding_keys_def lines sink path)
      show "f_group_lines ?item \<noteq> []"
        using shape by (auto simp: lines filter_empty_conv)
    qed
    with eq show ?thesis by simp
  qed
  then show ?thesis
    using inv1 unfolding scan_rule_def sl by simp
qed

lemma scan_rules_loop_inv:
  "dedup_inv cfg st \<Longrightarrow> dedup_inv cfg (scan_rules_loop env cfg ext lines rel_path rs st)"
  by (induction rs arbitrary: st) (auto simp: Let_def form_no_csrf_inv scan_rule_inv)

lemma scan_files_inv:
  "dedup_inv cfg st \<Longrightarrow> dedup_inv cfg (scan_files env cfg fs st)"
  by (induction fs arbitrary: st)
     (auto simp: Let_def scan_rules_loop_inv dedup_inv_regex_evals split: option.splits)

lemma scan_dirs_inv:
  "dedup_inv cfg st \<Longrightarrow> dedup_inv cfg (scan_dirs env cfg walk st)"
  by (induction walk arbitrary: st) (auto simp: scan_files_inv)

lemma scan_template_files_inv: "dedup_inv cfg (scan_template_files env cfg walk partial)"
  by (simp add: scan_template_files_def dedup_inv_initial scan_dirs_inv)

subsection \<open>Deduplication\<close>

definition ex_two_forms :: "string list" where
  "ex_two_forms = ex_form_lines @ ex_form_lines"

text \<open>
  C7. In one run of the template scanner no two findings have the same relative path and
  \<open>vul_type\<close>; no two findings share a line-level key \<open>(rule_name, relpath, line)\<close>, where
  the lines of a finding are its \<open>group_lines\<close> (never empty); and for every rule name and
  relative path there are at most 5 findings in full mode and at most 1 in lite mode.
\<close>

theorem template_scan_dedup:
  "distinct (map (\<lambda>f. (f_file_path f, f_vul_type f))
      (findings (scan_template_files env cfg walk partial))) \<and>
   distinct (concat (map finding_keys (findings (scan_template_files env cfg walk partial)))) \<and>
   list_all (\<lambda>f. f_group_lines f \<noteq> []) (findings (scan_template_files env cfg walk partial)) \<and>
   length (filter (\<lambda>f. f_sink f = rule_name \<and> f_file_path f = relpath)
      (findings (scan_template_files env cfg walk partial)))
     \<le> (if lite_fast cfg then 1 else 5)"
proof -
  have inv: "dedup_inv cfg (scan_template_files env cfg walk partial)"
    by (rule scan_template_files_inv)
  then have "length (filter (\<lambda>f. f_sink f = rule_name \<and> f_file_path f = relpath)
      (findings (scan_template_files env cfg walk partial))) \<le> PER_FILE_RULE_CAP cfg"
    unfolding dedup_inv_def by (meson order_trans)
  with inv show ?thesis
    by (simp add: dedup_inv_def PER_FILE_RULE_CAP_def)
qed

theorem template_scan_dedup_witness:
  "findings (scan_template_files (ex_env never_stop) (ex_cfg [ex_form_rule])
      [(''/proj'', [ex_file ''login.jsp'' ex_two_forms])] [])
     = [form_item (ex_cfg [ex_form_rule]) ex_form_rule ''login.jsp'' 1] \<and>
   length (filter (\<lambda>f. f_sink f = Some ''FORM_NO_CSRF'' \<and> f_file_path f = ''login.jsp'')
      (findings (scan_template_files (ex_env never_stop) (ex_cfg [ex_form_rule])
         [(''/proj'', [ex_file ''login.jsp'' ex_two_forms])] []))) \<le> 5"
proof -
  have run: "findings (scan_template_files (ex_env never_stop) (ex_cfg [ex_form_rule])
      [(''/proj'', [ex_file ''login.jsp'' ex_two_forms])] [])
     = [form_item (ex_cfg [ex_form_rule]) ex_form_rule ''login.jsp'' 1]"
    by code_simp
  from template_scan_dedup [of "ex_env never_stop" "ex_cfg [ex_form_rule]"
      "[(''/proj'', [ex_file ''login.jsp'' ex_two_forms])]" "[]" "Some ''FORM_NO_CSRF''" "''login.jsp''"]
  show ?thesis using run by (simp add: ex_cfg_def)
qed

subsection \<open>Severity of a grouped finding\<close>

definition ex_low_findings :: "finding list" where
  "ex_low_findings =
     [\<lparr>f_vul_type = Some ''MISC'', f_severity = ''Medium'', f_sink = Some ''JSP_TAG'',
       f_call_chain = (''page.jsp'', 1, 1), f_confidence = 0.25, f_file_path = ''page.jsp'',
       f_group_lines = [1], f_scan_mode = ''full''\<rparr>]"

text \<open>
  C6 as stated fails: on a \<open>.jsp\<close> file a line can pass the context threshold of 0.25
  with confidence 0.25; for a rule of severity \<open>High\<close> the finding is then emitted with
  severity \<open>Medium\<close>, not \<open>Low\<close>.
\<close>

theorem low_confidence_high_counterexample:
  "severity ex_low_rule = Some ''High'' \<and>
   findings (scan_template_files (ex_env never_stop) (ex_cfg [ex_low_rule])
      [(''/proj'', [ex_file ''page.jsp'' ex_low_lines])] []) = ex_low_findings"
  by code_simp

text \<open>
  C6, amended. A finding emitted by the grouped-line path has the severity of its rule
  (\<open>Medium\<close> when the rule has none), except that a group confidence below 0.5 turns
  \<open>High\<close> into \<open>Medium\<close> (also when the confidence is below 0.3), and a group
  confidence below 0.3 turns every other severity into \<open>Low\<close>.
\<close>

theorem group_severity_demotion:
  assumes "f \<in> set (findings (emit_groups cfg rule rel_path nums groups st))"
    and "f \<notin> set (findings st)"
  shows "\<exists>gs ge c. (gs, ge, c) \<in> set groups \<and> f = group_item cfg rule rel_path nums (gs, ge, c) \<and>
           f_confidence f = py_round2 c \<and>
           f_severity f =
             (if c < 0.5 \<and> py_or [severity rule] ''Medium'' = ''High'' then ''Medium''
              else if c < 0.3 then ''Low''
              else py_or [severity rule] ''Medium'')"
proof -
  from emit_groups_cases [of cfg rule rel_path nums groups st] assms
  obtain g where g: "g \<in> set groups"
    and eq: "emit_groups cfg rule rel_path nums groups st
             = emit (group_item cfg rule rel_path nums g) (name rule, rel_path) st"
    by auto
  obtain gs ge c where gg: "g = (gs, ge, c)" by (cases g)
  from assms eq have "f = group_item cfg rule rel_path nums g"
    by (simp add: emit_def)
  with g gg show ?thesis
    by (auto simp: group_item_def demote_severity_def Let_def)
qed

theorem group_severity_demotion_witness:
  "group_item (ex_cfg [ex_low_rule]) ex_low_rule ''page.jsp'' [1] (1, 1, 1 / 4)
     \<in> set (findings (emit_groups (ex_cfg [ex_low_rule]) ex_low_rule ''page.jsp'' [1] [(1, 1, 1 / 4)]
                (initial_state []))) \<and>
   group_item (ex_cfg [ex_low_rule]) ex_low_rule ''page.jsp'' [1] (1, 1, 1 / 4)
     \<notin> set (findings (initial_state [])) \<and>
   f_severity (group_item (ex_cfg [ex_low_rule]) ex_low_rule ''page.jsp'' [1] (1, 1, 1 / 4)) = ''Medium''"
proof -
  have a: "group_item (ex_cfg [ex_low_rule]) ex_low_rule ''page.jsp'' [1] (1, 1, 1 / 4)
     \<in> set (findings (emit_groups (ex_cfg [ex_low_rule]) ex_low_rule ''page.jsp'' [1] [(1, 1, 1 / 4)]
                (initial_state [])))"
    by (simp add: initial_state_def count_of_def PER_FILE_RULE_CAP_def ex_cfg_def emit_def
        MAX_FINDINGS_def Let_def)
  have b: "group_item (ex_cfg [ex_low_rule]) ex_low_rule ''page.jsp'' [1] (1, 1, 1 / 4)
     \<notin> set (findings (initial_state []))"
    by (simp add: initial_state_def)
  have c: "py_or [severity ex_low_rule] ''Medium'' = ''High''"
    by (simp add: ex_low_rule_def ex_line_rule_def)
  from group_severity_demotion [OF a b] c show ?thesis
    using a b by auto
qed

subsection \<open>Comment lines\<close>

text \<open>
  The scorer never returns less than its base score (capped at 1), so the test
  \<open>temp_conf < 0.3\<close> that guards the false-positive \<open>continue\<close> is never true for the base
  scores 0.5 and 0.6 it is called with.
\<close>

lemma bump_ge: "x \<le> s \<Longrightarrow> 0 \<le> d \<Longrightarrow> x \<le> bump c d s"
  by (simp add: bump_def)

lemma dangerous_step_ge: "x \<le> s \<Longrightarrow> x \<le> dangerous_step vt ll e s"
  by (cases e) (simp add: dangerous_step_def Let_def)

lemma fold_dangerous_step_ge: "x \<le> s \<Longrightarrow> x \<le> fold (dangerous_step vt ll) es s"
  by (induction es arbitrary: s) (simp_all add: dangerous_step_ge)

lemma block_delta_nonneg: "0 \<le> block_delta lines i"
  by (simp add: block_delta_def Let_def)

lemma add_block_delta_ge: "x \<le> s \<Longrightarrow> x \<le> s + block_delta lines i"
  using block_delta_nonneg [of lines i] by simp

lemma clamp01_ge: "x \<le> s \<Longrightarrow> x \<le> 1 \<Longrightarrow> x \<le> clamp01 s"
  by (simp add: clamp01_def)

lemma calculate_confidence_ge:
  assumes "x \<le> base" and "x \<le> 1"
  shows "x \<le> calculate_confidence line lines i rule base"
  unfolding calculate_confidence_def Let_def
  by (auto intro!: clamp01_ge bump_ge fold_dangerous_step_ge add_block_delta_ge assms)

lemma false_positive_never_skipped:
  "\<not> calculate_confidence line lines i rule (if is_jsp then 0.6 else 0.5) < 0.3"
proof -
  have "0.3 \<le> calculate_confidence line lines i rule (if is_jsp then 0.6 else 0.5)"
    by (rule calculate_confidence_ge) simp_all
  then show ?thesis by simp
qed

definition ex_comment_findings :: "finding list" where
  "ex_comment_findings =
     [\<lparr>f_vul_type = Some ''RCE'', f_severity = ''High'', f_sink = Some ''RUNTIME_EXEC'',
       f_call_chain = (''A.java'', 1, 1), f_confidence = 1, f_file_path = ''A.java'',
       f_group_lines = [1], f_scan_mode = ''full''\<rparr>,
      \<lparr>f_vul_type = Some ''SQLI'', f_severity = ''High'', f_sink = Some ''JDBC_EXECUTE_QUERY'',
       f_call_chain = (''A.java'', 2, 2), f_confidence = 0.95, f_file_path = ''A.java'',
       f_group_lines = [2], f_scan_mode = ''full''\<rparr>]"

text \<open>
  C5 fails on the code. Both lines of the example file start with \<open>//\<close>, and the scan
  reports an \<open>RCE\<close> finding for the first and an \<open>SQLI\<close> finding for the second.
\<close>

theorem comment_lines_reported:
  "starts_with (strip (ex_comment_lines ! 0)) ''//'' \<and>
   starts_with (strip (ex_comment_lines ! 1)) ''//'' \<and>
   findings (scan_template_files (ex_env never_stop) (ex_cfg ex_comment_rules)
      [(''/proj'', [ex_file ''A.java'' ex_comment_lines])] []) = ex_comment_findings"
  by code_simp

subsection \<open>The stop predicate\<close>

text \<open>
  The line pass of an ordinary rule polls the stop predicate and emits nothing once it
  answers true.
\<close>

lemma scan_lines_stopped:
  assumes "\<And>n. should_stop env n"
  shows "fst (scan_lines env cfg ext lines rule rel_path pats entries hits st) = hits \<and>
         same_emitted st (snd (scan_lines env cfg ext lines rule rel_path pats entries hits st))"
proof (cases entries)
  case Nil
  then show ?thesis by simp
next
  case (Cons e es)
  then show ?thesis using assms by (cases e) simp
qed

lemma scan_rule_stopped:
  assumes "\<And>n. should_stop env n"
  shows "same_emitted st (scan_rule env cfg ext lines rel_path rule st)"
  using scan_lines_stopped [OF assms, of cfg ext lines rule rel_path "compiled env rule"
      "zip [1..<Suc (length lines)] lines" "[]" st]
  unfolding scan_rule_def by (auto split: prod.splits)

definition ex_stop_rules :: "template_rule list" where
  "ex_stop_rules = [ex_line_rule ''RUNTIME_EXEC'' ''RCE'' ''getRuntime'', ex_form_rule]"

definition ex_stop_walk :: "(string \<times> src_file list) list" where
  "ex_stop_walk = [(''/proj'', [ex_file ''A.java'' ex_comment_lines,
                               ex_file ''login.jsp'' ex_form_lines])]"

text \<open>
  C9 fails on the code. The stop predicate answers true at every poll; it is polled
  (and observed true) in the line pass over \<open>A.java\<close>, and the block rule
  \<open>FORM_NO_CSRF\<close> still appends a finding for \<open>login.jsp\<close>, the file after it, to the
  results and to \<open>partial_results\<close>.
\<close>

theorem stop_ignored_by_form_rule:
  "findings (scan_template_files (ex_env always_stop) (ex_cfg ex_stop_rules) ex_stop_walk [])
     = [form_item (ex_cfg ex_stop_rules) ex_form_rule ''login.jsp'' 1] \<and>
   partial_results (scan_template_files (ex_env always_stop) (ex_cfg ex_stop_rules) ex_stop_walk [])
     = [form_item (ex_cfg ex_stop_rules) ex_form_rule ''login.jsp'' 1] \<and>
   polls (scan_template_files (ex_env always_stop) (ex_cfg ex_stop_rules) ex_stop_walk []) = 2"
  by code_simp

end
